theory Spec2Isabelle
  imports Main
begin

section \<open>Python values used by \<open>extras/leafandspine.py\<close>\<close>

text \<open>
  The script works on Python's unbounded integers (\<open>int\<close>), strings (\<open>string\<close>) and
  insertion-ordered dictionaries (association lists). Its only exceptions are the
  \<open>KeyError\<close>s of dictionary subscripts.
\<close>

datatype error = KeyError string

text \<open>\<open>range(n)\<close> and \<open>range(a, b)\<close>: empty when the bound is not above the start.\<close>

definition py_range :: "int \<Rightarrow> int list" where
  "py_range n = map int [0..<nat n]"

definition py_range2 :: "int \<Rightarrow> int \<Rightarrow> int list" where
  "py_range2 a b = map (\<lambda>k. a + int k) [0..<nat (b - a)]"

text \<open>The digits of \<open>'%s' % n\<close>, \<open>str(n)\<close> and \<open>'{:x}'.format(n)\<close>.\<close>

definition hexdigits :: string where
  "hexdigits = ''0123456789abcdef''"

definition digit_char :: "nat \<Rightarrow> char" where
  "digit_char d = hexdigits ! d"

function to_base :: "nat \<Rightarrow> nat \<Rightarrow> string" where
  "to_base b n =
     (if n < b \<or> b < 2 then [digit_char n]
      else to_base b (n div b) @ [digit_char (n mod b)])"
  by pat_completeness auto
termination
  by (relation "measure snd") auto

declare to_base.simps [simp del]

text \<open>\<open>str(i)\<close>, also what \<open>'%s' % i\<close> prints for an integer.\<close>

definition str_int :: "int \<Rightarrow> string" where
  "str_int i = (if i < 0 then CHR ''-'' # to_base 10 (nat (- i)) else to_base 10 (nat i))"

text \<open>\<open>'{:02x}'.format(i)\<close>: lower-case hexadecimal, zero-padded to width two.\<close>

definition format_02x :: "int \<Rightarrow> string" where
  "format_02x i =
     (let s = (if i < 0 then CHR ''-'' # to_base 16 (nat (- i)) else to_base 16 (nat i))
      in if length s < 2 then CHR ''0'' # s else s)"

section \<open>Calls of the switch-control command\<close>

text \<open>
  Every \<open>call(['ovs-ofctl', ...])\<close> is recorded, in order, in a log of argument
  vectors; the synthesizers return the log they extended.
\<close>

type_synonym command = "string list"

definition call :: "command \<Rightarrow> command list \<Rightarrow> command list" where
  "call argv log = log @ [argv]"

definition flood_rule :: string where
  "flood_rule = ''dl_dst=01:00:00:00:00:00/01:00:00:00:00:00 priority=400 actions=flood''"

text \<open>\<open>configMulticast(spine, leaf, fanout)\<close>, lines 71 to 83.\<close>

definition configMulticast :: "int \<Rightarrow> int \<Rightarrow> int \<Rightarrow> command list" where
  "configMulticast spine leaf fanout =
     (let log1 =
        fold (\<lambda>ls log.
            let switch = ''s'' @ str_int (spine + ls + 1);
                log' = fold (\<lambda>p. call [''ovs-ofctl'', ''mod-port'', switch, str_int p, ''noflood''])
                         (py_range2 2 (spine + 1)) log
            in call [''ovs-ofctl'', ''add-flow'', switch, flood_rule] log')
          (py_range leaf) []
      in fold (\<lambda>s log.
            let switch = ''s'' @ str_int (s + 1)
            in call [''ovs-ofctl'', ''add-flow'', switch, flood_rule] log)
          (py_range spine) log1)"

text \<open>The calls of a log that address one switch (the third word of the command).\<close>

definition calls_to :: "string \<Rightarrow> command list \<Rightarrow> command list" where
  "calls_to sw log = filter (\<lambda>c. 2 < length c \<and> c ! 2 = sw) log"


section \<open>Dictionaries and loops that may raise\<close>

text \<open>
  A dictionary is an association list in insertion order: assigning to a key that is
  present replaces its value in place, assigning to a new key appends it.
\<close>

fun dict_set :: "'k \<Rightarrow> 'v \<Rightarrow> ('k \<times> 'v) list \<Rightarrow> ('k \<times> 'v) list" where
  "dict_set k v [] = [(k, v)]"
| "dict_set k v ((k', v') # d) = (if k = k' then (k, v) # d else (k', v') # dict_set k v d)"

text \<open>A \<open>for\<close> loop whose body may raise: the first exception ends the loop.\<close>

fun foldM :: "('a \<Rightarrow> 's \<Rightarrow> error + 's) \<Rightarrow> 'a list \<Rightarrow> 's \<Rightarrow> error + 's" where
  "foldM f [] s = Inr s"
| "foldM f (x # xs) s = (case f x s of Inl e \<Rightarrow> Inl e | Inr s' \<Rightarrow> foldM f xs s')"

section \<open>The topology graph built by \<open>LeafAndSpine\<close>\<close>

text \<open>
  \<open>LeafAndSpine\<close> extends the emulator library's class \<open>Topo\<close>, which is not part of
  the repository. Of that class the script uses \<open>addSwitch\<close>, \<open>addHost\<close> and
  \<open>addLink\<close>; they are modelled by what they record: a node dictionary keyed by
  name, and an edge list in which every new link takes, at each end, the next free
  port of that node (ports of a switch count from 1, those of a host from 0). This
  is the numbering line 76 of the script relies on
  (\<open>the uplinks are added first so numbered from 1\<close>).
\<close>

record node_opts =
  isSwitch :: bool
  protocols :: "string option"
  ip :: "string option"

record link_opts =
  node1 :: string
  node2 :: string
  port1 :: int
  port2 :: int
  bw :: int

record Topo =
  g_node :: "(string \<times> node_opts) list"
  g_edge :: "link_opts list"

definition addSwitch :: "string \<Rightarrow> string \<Rightarrow> Topo \<Rightarrow> Topo" where
  "addSwitch nm proto t =
     t\<lparr>g_node := dict_set nm \<lparr>isSwitch = True, protocols = Some proto, ip = None\<rparr> (g_node t)\<rparr>"

definition addHost :: "string \<Rightarrow> string \<Rightarrow> Topo \<Rightarrow> Topo" where
  "addHost nm addr t =
     t\<lparr>g_node := dict_set nm \<lparr>isSwitch = False, protocols = None, ip = Some addr\<rparr> (g_node t)\<rparr>"

definition node_isSwitch :: "Topo \<Rightarrow> string \<Rightarrow> bool" where
  "node_isSwitch t nm = (case map_of (g_node t) nm of None \<Rightarrow> False | Some opts \<Rightarrow> isSwitch opts)"

definition next_port :: "Topo \<Rightarrow> string \<Rightarrow> int" where
  "next_port t nm =
     int (length (filter (\<lambda>l. node1 l = nm \<or> node2 l = nm) (g_edge t)))
       + (if node_isSwitch t nm then 1 else 0)"

definition addLink :: "string \<Rightarrow> string \<Rightarrow> int \<Rightarrow> Topo \<Rightarrow> Topo" where
  "addLink n1 n2 b t =
     t\<lparr>g_edge := g_edge t @
        [\<lparr>node1 = n1, node2 = n2, port1 = next_port t n1, port2 = next_port t n2, bw = b\<rparr>]\<rparr>"

text \<open>\<open>LeafAndSpine.__init__\<close>, lines 49 to 69, loop by loop.\<close>

definition LeafAndSpine_spines :: "int \<Rightarrow> (int \<rightharpoonup> string) \<times> Topo" where
  "LeafAndSpine_spines spine =
     fold (\<lambda>s (spines, t).
         let nm = ''s'' @ str_int (s + 1)
         in (spines(s \<mapsto> nm), addSwitch nm ''OpenFlow13'' t))
       (py_range spine) (Map.empty, \<lparr>g_node = [], g_edge = []\<rparr>)"

definition LeafAndSpine_uplinks ::
  "(int \<rightharpoonup> string) \<Rightarrow> int \<Rightarrow> string \<Rightarrow> Topo \<Rightarrow> error + Topo" where
  "LeafAndSpine_uplinks spines spine leafSwitch =
     foldM (\<lambda>s t.
         case spines s of
           None \<Rightarrow> Inl (KeyError (str_int s))
         | Some switch \<Rightarrow> Inr (addLink leafSwitch switch 10 t))
       (py_range spine)"

definition LeafAndSpine_hosts :: "int \<Rightarrow> int \<Rightarrow> string \<Rightarrow> Topo \<Rightarrow> Topo" where
  "LeafAndSpine_hosts fanout ls leafSwitch =
     fold (\<lambda>f t.
         let host = ''h'' @ str_int (ls * fanout + f + 1);
             t' = addHost host (''10.0.'' @ str_int ls @ ''.'' @ str_int (f + 1) @ ''/16'') t
         in addLink host leafSwitch 10 t')
       (py_range fanout)"

definition LeafAndSpine :: "int \<Rightarrow> int \<Rightarrow> int \<Rightarrow> error + Topo" where
  "LeafAndSpine spine leaf fanout =
     (let (spines, t0) = LeafAndSpine_spines spine
      in foldM (\<lambda>ls t.
             let leafSwitch = ''s'' @ str_int (spine + ls + 1);
                 t' = addSwitch leafSwitch ''OpenFlow13'' t
             in case LeafAndSpine_uplinks spines spine leafSwitch t' of
                  Inl e \<Rightarrow> Inl e
                | Inr t'' \<Rightarrow> Inr (LeafAndSpine_hosts fanout ls leafSwitch t''))
           (py_range leaf) t0)"

text \<open>What the claims read off a built graph.\<close>

definition topo_switches :: "Topo \<Rightarrow> string list" where
  "topo_switches t = map fst (filter (\<lambda>(nm, opts). isSwitch opts) (g_node t))"

definition topo_hosts :: "Topo \<Rightarrow> string list" where
  "topo_hosts t = map fst (filter (\<lambda>(nm, opts). \<not> isSwitch opts) (g_node t))"

text \<open>The ports of a node, each with the node and port at the far end of its link.\<close>

definition topo_ports :: "Topo \<Rightarrow> string \<Rightarrow> (int \<times> string \<times> int) list" where
  "topo_ports t nm =
     concat (map (\<lambda>l.
         (if node1 l = nm then [(port1 l, node2 l, port2 l)] else []) @
         (if node2 l = nm \<and> node1 l \<noteq> nm then [(port2 l, node1 l, port1 l)] else []))
       (g_edge t))"

section \<open>The running network (\<open>net\<close>)\<close>

text \<open>
  The emulator's network object, as far as \<open>configUnicast\<close> and \<open>dumpTopology\<close> read
  and write it: the host and switch objects (a node is identified by its name, as in
  the emulator's name table), each with the MAC address set on it (\<open>None\<close> until
  \<open>setMAC\<close> is called), and the links with the interface names at both ends.
\<close>

record node =
  name :: string
  dpid :: string
  IP :: "string option"
  MAC :: "string option"

record net_link =
  lnode1 :: string
  intf1 :: string
  lnode2 :: string
  intf2 :: string

record Mininet =
  hosts :: "node list"
  switches :: "node list"
  links :: "net_link list"

text \<open>\<open>net.get(name)\<close>: the node of that name, or \<open>KeyError\<close>.\<close>

definition net_get :: "Mininet \<Rightarrow> string \<Rightarrow> error + node" where
  "net_get net nm =
     (case find (\<lambda>x. name x = nm) (hosts net @ switches net) of
        None \<Rightarrow> Inl (KeyError nm)
      | Some x \<Rightarrow> Inr x)"

text \<open>\<open>host.setMAC(mac)\<close> writes the field of the object, which the network shares.\<close>

definition setMAC :: "node \<Rightarrow> string \<Rightarrow> Mininet \<Rightarrow> Mininet" where
  "setMAC host mac net =
     net\<lparr>hosts := map (\<lambda>x. if name x = name host then x\<lparr>MAC := Some mac\<rparr> else x) (hosts net),
         switches := map (\<lambda>x. if name x = name host then x\<lparr>MAC := Some mac\<rparr> else x) (switches net)\<rparr>"

text \<open>
  \<open>s1.connectionsTo(s2)\<close>: for every link between the two nodes, the interface on
  the side of \<open>s1\<close> and the one on the side of \<open>s2\<close>.
\<close>

definition connectionsTo :: "Mininet \<Rightarrow> string \<Rightarrow> string \<Rightarrow> (string \<times> string) list" where
  "connectionsTo net a b =
     concat (map (\<lambda>l.
         if lnode1 l = a \<and> lnode2 l = b then [(intf1 l, intf2 l)]
         else if lnode1 l = b \<and> lnode2 l = a then [(intf2 l, intf1 l)]
         else [])
       (links net))"

text \<open>
  \<open>Mininet(topo=topo)\<close>, line 175: one host object per host node (with the address
  given to \<open>addHost\<close>), one switch object per switch node, one link per edge, its
  interfaces named \<open><node>-eth<port>\<close>. The datapath identifier of a switch is the
  emulator's default: the first number in its name, in hexadecimal, padded to 16 digits.
\<close>

definition is_digit :: "char \<Rightarrow> bool" where
  "is_digit c = (c \<in> set ''0123456789'')"

definition digit_val :: "char \<Rightarrow> nat" where
  "digit_val c = length (takeWhile (\<lambda>d. d \<noteq> c) hexdigits)"

definition defaultDpid :: "string \<Rightarrow> string" where
  "defaultDpid nm =
     (let ds = takeWhile is_digit (dropWhile (\<lambda>c. \<not> is_digit c) nm);
          h = to_base 16 (fold (\<lambda>c n. 10 * n + digit_val c) ds 0)
      in replicate (16 - length h) CHR ''0'' @ h)"

definition intf_name :: "string \<Rightarrow> int \<Rightarrow> string" where
  "intf_name nm p = nm @ ''-eth'' @ str_int p"

definition Mininet_build :: "Topo \<Rightarrow> Mininet" where
  "Mininet_build topo =
     \<lparr>hosts = map (\<lambda>(nm, opts). \<lparr>name = nm, dpid = [], IP = ip opts, MAC = None\<rparr>)
                (filter (\<lambda>(nm, opts). \<not> isSwitch opts) (g_node topo)),
      switches = map (\<lambda>(nm, opts). \<lparr>name = nm, dpid = defaultDpid nm, IP = None, MAC = None\<rparr>)
                (filter (\<lambda>(nm, opts). isSwitch opts) (g_node topo)),
      links = map (\<lambda>l. \<lparr>lnode1 = node1 l, intf1 = intf_name (node1 l) (port1 l),
                        lnode2 = node2 l, intf2 = intf_name (node2 l) (port2 l)\<rparr>)
                (g_edge topo)\<rparr>"

section \<open>Unicast and multipath rules\<close>

text \<open>The MAC address of line 91.\<close>

definition host_mac :: "int \<Rightarrow> int \<Rightarrow> string" where
  "host_mac ls f = ''00:04:00:00:'' @ format_02x ls @ '':'' @ format_02x (f + 1)"

text \<open>The \<open>slaves\<close> list of lines 99 to 101.\<close>

definition slaves_of :: "int \<Rightarrow> string" where
  "slaves_of spine =
     (if spine > 1
      then fold (\<lambda>x slaves. slaves @ '','' @ str_int x) (py_range2 2 (spine + 1)) ''1''
      else ''1'')"

text \<open>The body of the loop over \<open>f\<close>, lines 90 to 106.\<close>

definition configUnicast_host ::
  "int \<Rightarrow> int \<Rightarrow> int \<Rightarrow> string \<Rightarrow> int \<Rightarrow> Mininet \<times> command list \<Rightarrow> error + Mininet \<times> command list" where
  "configUnicast_host spine fanout ls lsname f = (\<lambda>(net, log).
     let mac = host_mac ls f
     in case net_get net (''h'' @ str_int (ls * fanout + f + 1)) of
          Inl e \<Rightarrow> Inl e
        | Inr host \<Rightarrow>
            let net' = setMAC host mac net;
                log1 = call [''ovs-ofctl'', ''add-flow'', lsname,
                         ''dl_dst='' @ mac @ '' priority=500 actions=output:'' @ str_int (f + 1 + spine)] log;
                slaves = slaves_of spine;
                log2 = call [''ovs-ofctl'', ''add-flow'', lsname,
                         ''priority=300 actions=bundle(symmetric_l4,'' @ str_int (ls + 1)
                           @ '',hrw,ofport,slaves:'' @ slaves] log1;
                log3 = fold (\<lambda>s.
                           let sname = ''s'' @ str_int (s + 1)
                           in call [''ovs-ofctl'', ''add-flow'', sname,
                                ''dl_dst='' @ mac @ '' priority=500 actions=output:'' @ str_int (ls + 1)])
                         (py_range spine) log2
            in Inr (net', log3))"

text \<open>\<open>configUnicast(net, spine, leaf, fanout)\<close>, lines 86 to 106.\<close>

definition configUnicast ::
  "Mininet \<Rightarrow> int \<Rightarrow> int \<Rightarrow> int \<Rightarrow> error + Mininet \<times> command list" where
  "configUnicast net spine leaf fanout =
     foldM (\<lambda>ls.
         let lsname = ''s'' @ str_int (spine + ls + 1)
         in foldM (configUnicast_host spine fanout ls lsname) (py_range fanout))
       (py_range leaf) (net, [])"

text \<open>
  Lines 174, 175 and 178 of \<open>config\<close> (the script has line 178 commented out): the
  graph is built, the network is made from it, and the unicast rules are configured.
\<close>

definition config_unicast :: "int \<Rightarrow> int \<Rightarrow> int \<Rightarrow> error + Mininet \<times> command list" where
  "config_unicast spine leaf fanout =
     (case LeafAndSpine spine leaf fanout of
        Inl e \<Rightarrow> Inl e
      | Inr topo \<Rightarrow> configUnicast (Mininet_build topo) spine leaf fanout)"

section \<open>The topology export\<close>

record port_rec =
  port_name :: string
  ifindex :: string

record node_rec =
  node_name :: string
  node_dpid :: string
  ports :: "(string \<times> port_rec) list"
  agent :: string
  tag :: "string option"

record link_rec =
  l_node1 :: string
  l_port1 :: string
  l_ifindex1 :: string
  l_node2 :: string
  l_port2 :: string
  l_ifindex2 :: string

record topoData =
  nodes :: "(string \<times> node_rec) list"
  tlinks :: "(string \<times> link_rec) list"

text \<open>Lines 134 and 135: one record per switch, without a tag.\<close>

definition dump_nodes :: "Mininet \<Rightarrow> string \<Rightarrow> (string \<times> node_rec) list" where
  "dump_nodes net ag =
     fold (\<lambda>s. dict_set (name s)
             \<lparr>node_name = name s, node_dpid = dpid s, ports = [], agent = ag, tag = None\<rparr>)
       (switches net) []"

text \<open>
  \<open>re.match('(^s[0-9]+)-(.*)', child)\<close>: group 1 when the name starts with \<open>s\<close>, one
  or more digits and a dash.
\<close>

definition match_switch_intf :: "string \<Rightarrow> string option" where
  "match_switch_intf child =
     (case child of
        [] \<Rightarrow> None
      | c # r \<Rightarrow>
          if c = CHR ''s'' then
            (let ds = takeWhile is_digit r; rest = dropWhile is_digit r
             in if ds \<noteq> [] \<and> rest \<noteq> [] \<and> hd rest = CHR ''-'' then Some (c # ds) else None)
          else None)"

text \<open>
  Lines 137 to 141. The directory listing is given as the list of its entries, each
  with the contents of its \<open>ifindex\<close> file.
\<close>

definition dump_ports ::
  "(string \<times> string) list \<Rightarrow> (string \<times> node_rec) list \<Rightarrow> error + (string \<times> node_rec) list" where
  "dump_ports sysfs =
     foldM (\<lambda>(child, content) nds.
         case match_switch_intf child of
           None \<Rightarrow> Inr nds
         | Some sw \<Rightarrow>
             let idx = takeWhile (\<lambda>c. c \<noteq> CHR 0x0A) content
             in case map_of nds sw of
                  None \<Rightarrow> Inl (KeyError sw)
                | Some nd \<Rightarrow>
                    Inr (dict_set sw
                          (nd\<lparr>ports := dict_set child \<lparr>port_name = child, ifindex = idx\<rparr> (ports nd)\<rparr>)
                          nds))
       sysfs"

text \<open>\<open>topoData['nodes'][sw]['ports'][intf]['ifindex']\<close>, lines 149 and 150.\<close>

definition ifindex_of :: "(string \<times> node_rec) list \<Rightarrow> string \<Rightarrow> string \<Rightarrow> error + string" where
  "ifindex_of nds sw intf =
     (case map_of nds sw of
        None \<Rightarrow> Inl (KeyError sw)
      | Some nd \<Rightarrow>
          (case map_of (ports nd) intf of
             None \<Rightarrow> Inl (KeyError intf)
           | Some p \<Rightarrow> Inr (ifindex p)))"

text \<open>Lines 148 to 153: the record of one connection between \<open>s1\<close> and \<open>s2\<close>.\<close>

definition dump_link ::
  "(string \<times> node_rec) list \<Rightarrow> node \<Rightarrow> node \<Rightarrow> string \<times> string \<Rightarrow>
     (string \<times> link_rec) list \<Rightarrow> error + (string \<times> link_rec) list" where
  "dump_link nds s1 s2 = (\<lambda>(i1, i2) lks.
     case ifindex_of nds (name s1) i1 of
       Inl e \<Rightarrow> Inl e
     | Inr s1ifIdx \<Rightarrow>
         (case ifindex_of nds (name s2) i2 of
            Inl e \<Rightarrow> Inl e
          | Inr s2ifIdx \<Rightarrow>
              let linkName = name s1 @ ''-'' @ name s2
              in Inr (dict_set linkName
                       \<lparr>l_node1 = name s1, l_port1 = i1, l_ifindex1 = s1ifIdx,
                        l_node2 = name s2, l_port2 = i2, l_ifindex2 = s2ifIdx\<rparr> lks)))"

text \<open>Lines 142 to 155: every pair of switches, the second later in the list.\<close>

definition dump_links ::
  "Mininet \<Rightarrow> (string \<times> node_rec) list \<Rightarrow> error + (string \<times> link_rec) list" where
  "dump_links net nds =
     foldM (\<lambda>(i, s1).
         foldM (\<lambda>(j, s2) lks.
             if j > i
             then foldM (dump_link nds s1 s2) (connectionsTo net (name s1) (name s2)) lks
             else Inr lks)
           (enumerate 0 (switches net)))
       (enumerate 0 (switches net)) []"

text \<open>Lines 157 to 161: the switches a host is connected to are tagged.\<close>

definition dump_tags ::
  "Mininet \<Rightarrow> (string \<times> node_rec) list \<Rightarrow> error + (string \<times> node_rec) list" where
  "dump_tags net =
     foldM (\<lambda>h.
         foldM (\<lambda>s nds.
             if connectionsTo net (name h) (name s) \<noteq> []
             then (case map_of nds (name s) of
                     None \<Rightarrow> Inl (KeyError (name s))
                   | Some nd \<Rightarrow> Inr (dict_set (name s) (nd\<lparr>tag := Some ''edge''\<rparr>) nds))
             else Inr nds)
           (switches net))
       (hosts net)"

text \<open>
  \<open>dumpTopology(net, agent, topofile)\<close>, lines 132 to 165: the result is the
  structure written to the file.
\<close>

definition dumpTopology ::
  "Mininet \<Rightarrow> string \<Rightarrow> (string \<times> string) list \<Rightarrow> error + topoData" where
  "dumpTopology net ag sysfs =
     (case dump_ports sysfs (dump_nodes net ag) of
        Inl e \<Rightarrow> Inl e
      | Inr nds \<Rightarrow>
          (case dump_links net nds of
             Inl e \<Rightarrow> Inl e
           | Inr lks \<Rightarrow>
               (case dump_tags net nds of
                  Inl e \<Rightarrow> Inl e
                | Inr nds' \<Rightarrow> Inr \<lparr>nodes = nds', tlinks = lks\<rparr>)))"

section \<open>Closed forms used in the proofs\<close>

definition noflood_call :: "string \<Rightarrow> int \<Rightarrow> command" where
  "noflood_call sw p = [''ovs-ofctl'', ''mod-port'', sw, str_int p, ''noflood'']"

definition flood_call :: "string \<Rightarrow> command" where
  "flood_call sw = [''ovs-ofctl'', ''add-flow'', sw, flood_rule]"

definition leaf_flood_calls :: "int \<Rightarrow> int \<Rightarrow> command list" where
  "leaf_flood_calls spine ls =
     map (noflood_call (''s'' @ str_int (spine + ls + 1))) (py_range2 2 (spine + 1))
       @ [flood_call (''s'' @ str_int (spine + ls + 1))]"

definition sw_opts :: node_opts where
  "sw_opts = \<lparr>isSwitch = True, protocols = Some ''OpenFlow13'', ip = None\<rparr>"

definition host_opts :: "int \<Rightarrow> int \<Rightarrow> node_opts" where
  "host_opts ls f =
     \<lparr>isSwitch = False, protocols = None,
      ip = Some (''10.0.'' @ str_int ls @ ''.'' @ str_int (f + 1) @ ''/16'')\<rparr>"

definition touches :: "string \<Rightarrow> link_opts \<Rightarrow> bool" where
  "touches nm l = (node1 l = nm \<or> node2 l = nm)"

definition uplink_edges :: "int \<Rightarrow> int \<Rightarrow> link_opts list" where
  "uplink_edges spine ls =
     map (\<lambda>s. \<lparr>node1 = ''s'' @ str_int (spine + ls + 1), node2 = ''s'' @ str_int (s + 1),
               port1 = s + 1, port2 = ls + 1, bw = 10\<rparr>)
       (py_range spine)"

definition host_edges :: "int \<Rightarrow> int \<Rightarrow> int \<Rightarrow> link_opts list" where
  "host_edges spine fanout ls =
     map (\<lambda>f. \<lparr>node1 = ''h'' @ str_int (ls * fanout + f + 1), node2 = ''s'' @ str_int (spine + ls + 1),
               port1 = 0, port2 = int (nat spine) + f + 1, bw = 10\<rparr>)
       (py_range fanout)"

definition leaf_nodes :: "int \<Rightarrow> int \<Rightarrow> int \<Rightarrow> (string \<times> node_opts) list" where
  "leaf_nodes spine fanout ls =
     (''s'' @ str_int (spine + ls + 1), sw_opts)
       # map (\<lambda>f. (''h'' @ str_int (ls * fanout + f + 1), host_opts ls f)) (py_range fanout)"

definition spine_nodes :: "int \<Rightarrow> (string \<times> node_opts) list" where
  "spine_nodes spine = map (\<lambda>s. (''s'' @ str_int (s + 1), sw_opts)) (py_range spine)"

definition fabric :: "int \<Rightarrow> int \<Rightarrow> int \<Rightarrow> Topo" where
  "fabric spine leaf fanout =
     \<lparr>g_node = spine_nodes spine @ concat (map (leaf_nodes spine fanout) (py_range leaf)),
      g_edge = concat (map (\<lambda>ls. uplink_edges spine ls @ host_edges spine fanout ls) (py_range leaf))\<rparr>"

definition fabric_names :: "int \<Rightarrow> int \<Rightarrow> int \<Rightarrow> string set" where
  "fabric_names spine leaf fanout =
     {''s'' @ str_int (s + 1) | s. 0 \<le> s \<and> s < spine} \<union>
     {''s'' @ str_int (spine + ls + 1) | ls. 0 \<le> ls \<and> ls < leaf} \<union>
     {''h'' @ str_int (ls * fanout + f + 1) | ls f. 0 \<le> ls \<and> ls < leaf \<and> 0 \<le> f \<and> f < fanout}"

definition port_entries :: "string \<Rightarrow> link_opts \<Rightarrow> (int \<times> string \<times> int) list" where
  "port_entries nm l =
     (if node1 l = nm then [(port1 l, node2 l, port2 l)] else []) @
     (if node2 l = nm \<and> node1 l \<noteq> nm then [(port2 l, node1 l, port1 l)] else [])"

definition flow_call :: "string \<Rightarrow> string \<Rightarrow> command" where
  "flow_call sw rule = [''ovs-ofctl'', ''add-flow'', sw, rule]"

definition exact_rule :: "string \<Rightarrow> int \<Rightarrow> string" where
  "exact_rule mac p = ''dl_dst='' @ mac @ '' priority=500 actions=output:'' @ str_int p"

definition multipath_rule :: "int \<Rightarrow> int \<Rightarrow> string" where
  "multipath_rule spine ls =
     ''priority=300 actions=bundle(symmetric_l4,'' @ str_int (ls + 1)
       @ '',hrw,ofport,slaves:'' @ slaves_of spine"

definition host_calls :: "int \<Rightarrow> int \<Rightarrow> int \<Rightarrow> command list" where
  "host_calls spine ls f =
     [flow_call (''s'' @ str_int (spine + ls + 1)) (exact_rule (host_mac ls f) (f + 1 + spine)),
      flow_call (''s'' @ str_int (spine + ls + 1)) (multipath_rule spine ls)]
     @ map (\<lambda>s. flow_call (''s'' @ str_int (s + 1)) (exact_rule (host_mac ls f) (ls + 1)))
         (py_range spine)"

definition set_mac :: "string \<Rightarrow> string \<Rightarrow> node \<Rightarrow> node" where
  "set_mac nm mac x = (if name x = nm then x\<lparr>MAC := Some mac\<rparr> else x)"

definition unicast_mac :: "int \<Rightarrow> int \<times> int \<Rightarrow> node \<Rightarrow> node" where
  "unicast_mac fanout = (\<lambda>(ls, f). set_mac (''h'' @ str_int (ls * fanout + f + 1)) (host_mac ls f))"

definition fabric_host :: "int \<Rightarrow> int \<times> int \<Rightarrow> node" where
  "fabric_host fanout = (\<lambda>(ls, f).
     \<lparr>name = ''h'' @ str_int (ls * fanout + f + 1), dpid = [],
      IP = Some (''10.0.'' @ str_int ls @ ''.'' @ str_int (f + 1) @ ''/16''), MAC = None\<rparr>)"

definition unicast_net :: "int \<Rightarrow> (int \<times> int) list \<Rightarrow> Mininet \<Rightarrow> Mininet" where
  "unicast_net fanout ps net =
     net\<lparr>hosts := map (fold (unicast_mac fanout) ps) (hosts net),
         switches := map (fold (unicast_mac fanout) ps) (switches net)\<rparr>"

definition host_pairs :: "int \<Rightarrow> int \<Rightarrow> (int \<times> int) list" where
  "host_pairs leaf fanout = List.product (py_range leaf) (py_range fanout)"

definition configured_host :: "int \<Rightarrow> int \<times> int \<Rightarrow> node" where
  "configured_host fanout = (\<lambda>(ls, f).
     \<lparr>name = ''h'' @ str_int (ls * fanout + f + 1), dpid = [],
      IP = Some (''10.0.'' @ str_int ls @ ''.'' @ str_int (f + 1) @ ''/16''),
      MAC = Some (host_mac ls f)\<rparr>)"


definition unicast_log :: "int \<Rightarrow> int \<Rightarrow> int \<Rightarrow> command list" where
  "unicast_log spine leaf fanout =
     concat (map (\<lambda>(ls, f). host_calls spine ls f) (host_pairs leaf fanout))"

definition leaf_calls :: "int \<Rightarrow> int \<Rightarrow> int \<Rightarrow> command list" where
  "leaf_calls spine ls f =
     [flow_call (''s'' @ str_int (spine + ls + 1)) (exact_rule (host_mac ls f) (f + 1 + spine)),
      flow_call (''s'' @ str_int (spine + ls + 1)) (multipath_rule spine ls)]"


definition tags_of :: "(string \<times> node_rec) list \<Rightarrow> string \<Rightarrow> string option option" where
  "tags_of nds k = map_option tag (map_of nds k)"

definition ports_within :: "string set \<Rightarrow> (string \<times> node_rec) list \<Rightarrow> bool" where
  "ports_within X nds = (\<forall>(k, nd) \<in> set nds. fst ` set (ports nd) \<subseteq> X)"

definition tag_step :: "Mininet \<Rightarrow> node \<times> node \<Rightarrow> (string \<times> node_rec) list \<Rightarrow> error + (string \<times> node_rec) list" where
  "tag_step net = (\<lambda>(h, s) nds.
     if connectionsTo net (name h) (name s) \<noteq> []
     then (case map_of nds (name s) of
             None \<Rightarrow> Inl (KeyError (name s))
           | Some nd \<Rightarrow> Inr (dict_set (name s) (nd\<lparr>tag := Some ''edge''\<rparr>) nds))
     else Inr nds)"

definition tagged :: "Mininet \<Rightarrow> (node \<times> node) list \<Rightarrow> string set" where
  "tagged net ps = {name s | h s. (h, s) \<in> set ps \<and> connectionsTo net (name h) (name s) \<noteq> []}"

text \<open>A network of one spine switch, one leaf switch and one host, and its interfaces.\<close>

definition demo_net :: Mininet where
  "demo_net =
     \<lparr>hosts = [\<lparr>name = ''h1'', dpid = [], IP = Some ''10.0.0.1/16'', MAC = None\<rparr>],
      switches = [\<lparr>name = ''s1'', dpid = ''0000000000000001'', IP = None, MAC = None\<rparr>,
                  \<lparr>name = ''s2'', dpid = ''0000000000000002'', IP = None, MAC = None\<rparr>],
      links = [\<lparr>lnode1 = ''s2'', intf1 = ''s2-eth1'', lnode2 = ''s1'', intf2 = ''s1-eth1''\<rparr>,
               \<lparr>lnode1 = ''h1'', intf1 = ''h1-eth0'', lnode2 = ''s2'', intf2 = ''s2-eth2''\<rparr>]\<rparr>"

definition demo_sysfs :: "(string \<times> string) list" where
  "demo_sysfs =
     [(''lo'', [CHR ''1'', CHR 0x0A]), (''s1-eth1'', [CHR ''5'', CHR 0x0A]),
      (''s2-eth1'', [CHR ''6'', CHR 0x0A]), (''s2-eth2'', [CHR ''7'', CHR 0x0A])]"

section \<open>Integers as strings\<close>


lemma hexdigits_length: "length hexdigits = 16"
  by (simp add: hexdigits_def)

lemma hexdigits_distinct: "distinct hexdigits"
  by (simp add: hexdigits_def)

lemma digit_char_inj:
  assumes "d < 16" "e < 16" "digit_char d = digit_char e"
  shows "d = e"
  using assms hexdigits_distinct
  by (simp add: digit_char_def nth_eq_iff_index_eq hexdigits_length)

lemma digit_char_mem: "d < 16 \<Longrightarrow> digit_char d \<in> set hexdigits"
  unfolding digit_char_def by (rule nth_mem) (simp add: hexdigits_length)

lemma to_base_not_Nil: "to_base b n \<noteq> []"
  by (subst to_base.simps) simp

lemma to_base_small: "n < b \<Longrightarrow> to_base b n = [digit_char n]"
  by (subst to_base.simps) simp

lemma to_base_big:
  "2 \<le> b \<Longrightarrow> b \<le> n \<Longrightarrow> to_base b n = to_base b (n div b) @ [digit_char (n mod b)]"
  by (subst to_base.simps) simp

lemma to_base_length_big: "2 \<le> b \<Longrightarrow> b \<le> n \<Longrightarrow> 2 \<le> length (to_base b n)"
proof -
  assume b: "2 \<le> b" "b \<le> n"
  have "1 \<le> length (to_base b (n div b))"
    using to_base_not_Nil [of b "n div b"] by (cases "to_base b (n div b)") simp_all
  then show ?thesis unfolding to_base_big [OF b] by simp
qed

lemma to_base_inj:
  assumes b: "2 \<le> b" "b \<le> 16"
  shows "to_base b n = to_base b m \<Longrightarrow> n = m"
proof (induction n arbitrary: m rule: less_induct)
  case (less n)
  note eq = \<open>to_base b n = to_base b m\<close>
  show ?case
  proof (cases "n < b")
    case nb: True
    show ?thesis
    proof (cases "m < b")
      case True
      from eq have "digit_char n = digit_char m"
        by (simp add: to_base_small nb True)
      moreover have "n < 16" "m < 16" using nb True b by simp_all
      ultimately show ?thesis using digit_char_inj by blast
    next
      case False
      then have "2 \<le> length (to_base b m)" using b by (simp add: to_base_length_big)
      moreover have "length (to_base b n) = 1" by (simp add: to_base_small nb)
      ultimately show ?thesis using eq by simp
    qed
  next
    case nb: False
    show ?thesis
    proof (cases "m < b")
      case True
      from nb have "2 \<le> length (to_base b n)" using b by (simp add: to_base_length_big)
      moreover have "length (to_base b m) = 1" by (simp add: to_base_small True)
      ultimately show ?thesis using eq by simp
    next
      case False
      have n: "to_base b n = to_base b (n div b) @ [digit_char (n mod b)]"
        using nb b by (simp add: to_base_big)
      have m: "to_base b m = to_base b (m div b) @ [digit_char (m mod b)]"
        using False b by (simp add: to_base_big)
      from eq have parts: "to_base b (n div b) = to_base b (m div b)"
        "digit_char (n mod b) = digit_char (m mod b)"
        unfolding n m by simp_all
      have "n div b < n" using nb b by (simp add: not_less)
      with less.IH parts(1) have d: "n div b = m div b" by blast
      have "n mod b < b" "m mod b < b" using b by simp_all
      then have "n mod b < 16" "m mod b < 16" using b by linarith+
      with parts(2) have r: "n mod b = m mod b" using digit_char_inj by blast
      have "n = b * (n div b) + n mod b" by simp
      also have "\<dots> = b * (m div b) + m mod b" by (simp only: d r)
      also have "\<dots> = m" by simp
      finally show ?thesis .
    qed
  qed
qed

lemma to_base_set:
  assumes b: "2 \<le> b" "b \<le> 16"
  shows "set (to_base b n) \<subseteq> set hexdigits"
proof (induction n rule: less_induct)
  case (less n)
  show ?case
  proof (cases "n < b")
    case True
    then have "n < 16" using b by simp
    from digit_char_mem [OF this] True show ?thesis
      by (simp add: to_base_small)
  next
    case False
    then have step: "to_base b n = to_base b (n div b) @ [digit_char (n mod b)]"
      using b by (simp add: to_base_big)
    have "n div b < n" using False b by (simp add: not_less)
    then have ih: "set (to_base b (n div b)) \<subseteq> set hexdigits"
      by (rule less.IH)
    have "n mod b < b" using b by simp
    then have "n mod b < 16" using b by linarith
    from digit_char_mem [OF this] ih show ?thesis
      unfolding step by simp
  qed
qed

lemma minus_not_digit: "CHR ''-'' \<notin> set (to_base 10 n)"
proof -
  have "CHR ''-'' \<notin> set hexdigits" by (simp add: hexdigits_def)
  with to_base_set [of 10 n] show ?thesis by auto
qed

lemma str_int_inj: "str_int a = str_int b \<Longrightarrow> a = b"
proof -
  assume eq: "str_int a = str_int b"
  have nd: "\<And>n xs. to_base 10 n \<noteq> CHR ''-'' # xs"
    using minus_not_digit by (metis list.set_intros(1))
  show "a = b"
  proof (cases "a < 0")
    case a: True
    show ?thesis
    proof (cases "b < 0")
      case True
      with a eq have "to_base 10 (nat (- a)) = to_base 10 (nat (- b))"
        by (simp add: str_int_def)
      then have "nat (- a) = nat (- b)" by (rule to_base_inj [rotated 2]) simp_all
      with a True show ?thesis by simp
    next
      case False
      with a eq have "to_base 10 (nat b) = CHR ''-'' # to_base 10 (nat (- a))"
        by (simp add: str_int_def)
      with nd show ?thesis by blast
    qed
  next
    case a: False
    show ?thesis
    proof (cases "b < 0")
      case True
      with a eq have "to_base 10 (nat a) = CHR ''-'' # to_base 10 (nat (- b))"
        by (simp add: str_int_def)
      with nd show ?thesis by blast
    next
      case False
      with a eq have "to_base 10 (nat a) = to_base 10 (nat b)"
        by (simp add: str_int_def)
      then have "nat a = nat b" by (rule to_base_inj [rotated 2]) simp_all
      with a False show ?thesis by simp
    qed
  qed
qed

lemma str_int_eq_iff [simp]: "str_int a = str_int b \<longleftrightarrow> a = b"
  using str_int_inj by blast

lemma fold_call: "fold (\<lambda>x. call (g x)) xs log = log @ map g xs"
  by (induction xs arbitrary: log) (simp_all add: call_def)


section \<open>Ranges, logs and loops\<close>


lemma set_py_range: "set (py_range n) = {0..<n}"
proof -
  have "set (py_range n) = int ` {0..<nat n}" by (simp add: py_range_def)
  also have "\<dots> = {0..<n}"
  proof (intro set_eqI iffI)
    fix x assume "x \<in> int ` {0..<nat n}"
    then show "x \<in> {0..<n}" by auto
  next
    fix x assume "x \<in> {0..<n}"
    then have "x = int (nat x)" "nat x \<in> {0..<nat n}" by auto
    then show "x \<in> int ` {0..<nat n}" by blast
  qed
  finally show ?thesis .
qed

lemma mem_py_range [simp]: "x \<in> set (py_range n) \<longleftrightarrow> 0 \<le> x \<and> x < n"
  by (simp add: set_py_range)

lemma distinct_py_range [simp]: "distinct (py_range n)"
  by (simp add: py_range_def distinct_map inj_on_def)

lemma set_py_range2: "set (py_range2 a b) = {a..<b}"
proof (intro set_eqI iffI)
  fix x assume "x \<in> set (py_range2 a b)"
  then show "x \<in> {a..<b}" by (auto simp: py_range2_def)
next
  fix x assume x: "x \<in> {a..<b}"
  then have "x = a + int (nat (x - a))" "nat (x - a) \<in> {0..<nat (b - a)}" by auto
  then show "x \<in> set (py_range2 a b)" unfolding py_range2_def set_map set_upt by blast
qed

lemma mem_py_range2 [simp]: "x \<in> set (py_range2 a b) \<longleftrightarrow> a \<le> x \<and> x < b"
  by (simp add: set_py_range2)

lemma distinct_py_range2 [simp]: "distinct (py_range2 a b)"
  by (simp add: py_range2_def distinct_map inj_on_def)

lemma fold_append_log: "fold (\<lambda>x log. log @ g x) xs log = log @ concat (map g xs)"
  by (induction xs arbitrary: log) simp_all

lemma concat_map_none: "(\<And>y. y \<in> set xs \<Longrightarrow> h y = []) \<Longrightarrow> concat (map h xs) = []"
  by (induction xs) simp_all

lemma concat_map_single:
  "distinct xs \<Longrightarrow> x \<in> set xs \<Longrightarrow> (\<And>y. y \<in> set xs \<Longrightarrow> y \<noteq> x \<Longrightarrow> h y = [])
     \<Longrightarrow> concat (map h xs) = h x"
proof (induction xs)
  case Nil
  then show ?case by simp
next
  case (Cons a xs)
  show ?case
  proof (cases "a = x")
    case True
    with Cons.prems have "concat (map h xs) = []"
      by (intro concat_map_none) auto
    with True show ?thesis by simp
  next
    case False
    with Cons.prems have "h a = []" by simp
    moreover from False Cons.prems have "concat (map h xs) = h x"
      by (intro Cons.IH) auto
    ultimately show ?thesis by simp
  qed
qed

lemma filter_concat_map: "filter P (concat (map g xs)) = concat (map (\<lambda>x. filter P (g x)) xs)"
  by (induction xs) simp_all



section \<open>Flood control\<close>

lemma configMulticast_closed:
  "configMulticast spine leaf fanout =
     concat (map (leaf_flood_calls spine) (py_range leaf))
     @ map (\<lambda>s. flood_call (''s'' @ str_int (s + 1))) (py_range spine)"
proof -
  have body: "(\<lambda>ls log. let switch = ''s'' @ str_int (spine + ls + 1);
                log' = fold (\<lambda>p. call [''ovs-ofctl'', ''mod-port'', switch, str_int p, ''noflood''])
                         (py_range2 2 (spine + 1)) log
            in call [''ovs-ofctl'', ''add-flow'', switch, flood_rule] log')
      = (\<lambda>ls log. log @ leaf_flood_calls spine ls)"
    by (intro ext) (simp add: Let_def fold_call call_def leaf_flood_calls_def noflood_call_def [abs_def] flood_call_def)
  have spines: "(\<lambda>s log. let switch = ''s'' @ str_int (s + 1)
            in call [''ovs-ofctl'', ''add-flow'', switch, flood_rule] log)
      = (\<lambda>s. call (flood_call (''s'' @ str_int (s + 1))))"
    by (intro ext) (simp add: flood_call_def)
  show ?thesis
    unfolding configMulticast_def body spines fold_append_log
    by (simp add: fold_call)
qed

lemma calls_to_append: "calls_to sw (xs @ ys) = calls_to sw xs @ calls_to sw ys"
  by (simp add: calls_to_def)

lemma calls_to_concat: "calls_to sw (concat (map g xs)) = concat (map (\<lambda>x. calls_to sw (g x)) xs)"
  unfolding calls_to_def by (rule filter_concat_map)

lemma calls_to_leaf_flood:
  "calls_to sw (leaf_flood_calls spine ls) =
     (if ''s'' @ str_int (spine + ls + 1) = sw then leaf_flood_calls spine ls else [])"
  by (simp add: calls_to_def leaf_flood_calls_def noflood_call_def flood_call_def)

lemma calls_to_map_flood:
  "calls_to sw (map (\<lambda>s. flood_call (g s)) xs) =
     concat (map (\<lambda>s. if g s = sw then [flood_call (g s)] else []) xs)"
  by (induction xs) (simp_all add: calls_to_def flood_call_def)

lemma calls_to_configMulticast_leaf:
  assumes "0 \<le> ls" "ls < leaf"
  shows "calls_to (''s'' @ str_int (spine + ls + 1)) (configMulticast spine leaf fanout) =
           leaf_flood_calls spine ls"
proof -
  let ?sw = "''s'' @ str_int (spine + ls + 1)"
  have "concat (map (\<lambda>x. calls_to ?sw (leaf_flood_calls spine x)) (py_range leaf))
          = calls_to ?sw (leaf_flood_calls spine ls)"
    using assms by (intro concat_map_single) (auto simp: calls_to_leaf_flood)
  then have leafs: "calls_to ?sw (concat (map (leaf_flood_calls spine) (py_range leaf)))
          = leaf_flood_calls spine ls"
    by (simp add: calls_to_concat calls_to_leaf_flood)
  have "concat (map (\<lambda>s. if ''s'' @ str_int (s + 1) = ?sw then [flood_call (''s'' @ str_int (s + 1))] else [])
           (py_range spine)) = []"
    using assms by (intro concat_map_none) auto
  then have spines: "calls_to ?sw (map (\<lambda>s. flood_call (''s'' @ str_int (s + 1))) (py_range spine)) = []"
    by (simp only: calls_to_map_flood)
  show ?thesis
    by (simp only: configMulticast_closed calls_to_append leafs spines append_Nil2)
qed

lemma calls_to_configMulticast_spine:
  assumes "0 \<le> s" "s < spine"
  shows "calls_to (''s'' @ str_int (s + 1)) (configMulticast spine leaf fanout) =
           [flood_call (''s'' @ str_int (s + 1))]"
proof -
  let ?sw = "''s'' @ str_int (s + 1)"
  have "concat (map (\<lambda>x. calls_to ?sw (leaf_flood_calls spine x)) (py_range leaf)) = []"
    using assms by (intro concat_map_none) (auto simp: calls_to_leaf_flood)
  then have leafs: "calls_to ?sw (concat (map (leaf_flood_calls spine) (py_range leaf))) = []"
    by (simp only: calls_to_concat)
  let ?k = "\<lambda>s'. if ''s'' @ str_int (s' + 1) = ?sw then [flood_call (''s'' @ str_int (s' + 1))] else []"
  have "calls_to ?sw (map (\<lambda>s. flood_call (''s'' @ str_int (s + 1))) (py_range spine))
      = concat (map ?k (py_range spine))"
    by (rule calls_to_map_flood)
  also have "\<dots> = ?k s"
    using assms by (intro concat_map_single) auto
  also have "\<dots> = [flood_call ?sw]" by simp
  finally have spines: "calls_to ?sw (map (\<lambda>s. flood_call (''s'' @ str_int (s + 1))) (py_range spine))
      = [flood_call ?sw]" .
  show ?thesis
    by (simp only: configMulticast_closed calls_to_append leafs spines append_Nil)
qed

lemma calls_to_mem: "c \<in> set log \<Longrightarrow> 2 < length c \<Longrightarrow> c ! 2 = sw \<Longrightarrow> c \<in> set (calls_to sw log)"
  by (simp add: calls_to_def)

lemma no_noflood_on_port_1:
  assumes "0 \<le> ls" "ls < leaf"
  shows "noflood_call (''s'' @ str_int (spine + ls + 1)) 1 \<notin> set (configMulticast spine leaf fanout)"
proof
  let ?sw = "''s'' @ str_int (spine + ls + 1)"
  assume "noflood_call ?sw 1 \<in> set (configMulticast spine leaf fanout)"
  then have "noflood_call ?sw 1 \<in> set (calls_to ?sw (configMulticast spine leaf fanout))"
    by (rule calls_to_mem) (simp_all add: noflood_call_def)
  then have "noflood_call ?sw 1 \<in> set (leaf_flood_calls spine ls)"
    unfolding calls_to_configMulticast_leaf [OF assms] .
  then have "(\<exists>p. 2 \<le> p \<and> noflood_call ?sw 1 = noflood_call ?sw p) \<or> noflood_call ?sw 1 = flood_call ?sw"
    by (auto simp: leaf_flood_calls_def)
  then show False
    by (auto simp: noflood_call_def flood_call_def)
qed

text \<open>
  C3. The calls \<open>configMulticast\<close> addresses to the leaf switch of index \<open>ls\<close> are
  exactly one \<open>noflood\<close> call for each port of \<open>range(2, spine + 1)\<close>, in order,
  followed by one flood rule; the calls addressed to a spine switch are exactly one
  flood rule. The flood rule is the text of lines 79 and 83: it matches the
  destination addresses with the multicast bit \<open>01:00:00:00:00:00\<close> set, at priority
  400, with action \<open>flood\<close>. The ports of that range are those from 2 to \<open>spine\<close>, and for
  \<open>spine = 1\<close> the range is empty. No \<open>noflood\<close> call is ever made for port 1 of a leaf
  switch.
\<close>

theorem configMulticast_flood_control:
  "(\<forall>ls. 0 \<le> ls \<and> ls < leaf \<longrightarrow>
      calls_to (''s'' @ str_int (spine + ls + 1)) (configMulticast spine leaf fanout) =
        map (\<lambda>p. [''ovs-ofctl'', ''mod-port'', ''s'' @ str_int (spine + ls + 1), str_int p, ''noflood''])
          (py_range2 2 (spine + 1))
        @ [[''ovs-ofctl'', ''add-flow'', ''s'' @ str_int (spine + ls + 1), ''dl_dst=01:00:00:00:00:00/01:00:00:00:00:00 priority=400 actions=flood'']]) \<and>
   (\<forall>s. 0 \<le> s \<and> s < spine \<longrightarrow>
      calls_to (''s'' @ str_int (s + 1)) (configMulticast spine leaf fanout) =
        [[''ovs-ofctl'', ''add-flow'', ''s'' @ str_int (s + 1), ''dl_dst=01:00:00:00:00:00/01:00:00:00:00:00 priority=400 actions=flood'']]) \<and>
   set (py_range2 2 (spine + 1)) = {2..spine} \<and>
   (spine = 1 \<longrightarrow> py_range2 2 (spine + 1) = []) \<and>
   (\<forall>ls. 0 \<le> ls \<and> ls < leaf \<longrightarrow>
      [''ovs-ofctl'', ''mod-port'', ''s'' @ str_int (spine + ls + 1), str_int 1, ''noflood'']
        \<notin> set (configMulticast spine leaf fanout))"
proof (intro conjI allI impI)
  fix ls :: int
  assume ls: "0 \<le> ls \<and> ls < leaf"
  then show "calls_to (''s'' @ str_int (spine + ls + 1)) (configMulticast spine leaf fanout) =
        map (\<lambda>p. [''ovs-ofctl'', ''mod-port'', ''s'' @ str_int (spine + ls + 1), str_int p, ''noflood''])
          (py_range2 2 (spine + 1))
        @ [[''ovs-ofctl'', ''add-flow'', ''s'' @ str_int (spine + ls + 1), ''dl_dst=01:00:00:00:00:00/01:00:00:00:00:00 priority=400 actions=flood'']]"
    using calls_to_configMulticast_leaf [of ls leaf spine fanout]
    by (simp add: leaf_flood_calls_def noflood_call_def [abs_def] flood_call_def flood_rule_def)
next
  fix s :: int
  assume s: "0 \<le> s \<and> s < spine"
  then show "calls_to (''s'' @ str_int (s + 1)) (configMulticast spine leaf fanout) =
       [[''ovs-ofctl'', ''add-flow'', ''s'' @ str_int (s + 1), ''dl_dst=01:00:00:00:00:00/01:00:00:00:00:00 priority=400 actions=flood'']]"
    using calls_to_configMulticast_spine [of s spine leaf fanout]
    by (simp add: flood_call_def flood_rule_def)
next
  show "set (py_range2 2 (spine + 1)) = {2..spine}"
    by (auto simp: set_py_range2)
next
  assume "spine = 1"
  then show "py_range2 2 (spine + 1) = []" by (simp add: py_range2_def)
next
  fix ls :: int
  assume "0 \<le> ls \<and> ls < leaf"
  then show "[''ovs-ofctl'', ''mod-port'', ''s'' @ str_int (spine + ls + 1), str_int 1, ''noflood'']
        \<notin> set (configMulticast spine leaf fanout)"
    using no_noflood_on_port_1 [of ls leaf spine fanout] by (simp add: noflood_call_def)
qed

theorem configMulticast_flood_control_witness:
  "calls_to ''s3'' (configMulticast 2 2 2) =
     [[''ovs-ofctl'', ''mod-port'', ''s3'', ''2'', ''noflood''],
      [''ovs-ofctl'', ''add-flow'', ''s3'', ''dl_dst=01:00:00:00:00:00/01:00:00:00:00:00 priority=400 actions=flood'']] \<and>
   calls_to ''s1'' (configMulticast 2 2 2) = [[''ovs-ofctl'', ''add-flow'', ''s1'', ''dl_dst=01:00:00:00:00:00/01:00:00:00:00:00 priority=400 actions=flood'']] \<and>
   calls_to ''s2'' (configMulticast 1 1 1) = [[''ovs-ofctl'', ''add-flow'', ''s2'', ''dl_dst=01:00:00:00:00:00/01:00:00:00:00:00 priority=400 actions=flood'']]"
proof -
  have s3: "str_int 3 = ''3''" "str_int 1 = ''1''" "str_int 2 = ''2''"
    by code_simp+
  have r: "py_range2 2 3 = [2]" "py_range2 2 2 = []" by code_simp+
  from configMulticast_flood_control [of 2 2 2, THEN conjunct1, rule_format, of 0]
       configMulticast_flood_control [of 2 2 2, THEN conjunct2, THEN conjunct1, rule_format, of 0]
       configMulticast_flood_control [of 1 1 1, THEN conjunct1, rule_format, of 0]
  show ?thesis by (simp add: s3 r)
qed


section \<open>The graph that \<open>LeafAndSpine\<close> builds\<close>


lemma py_range_int: "py_range n = py_range (int (nat n))"
  by (simp add: py_range_def)

lemma py_range_Suc: "py_range (int (Suc k)) = py_range (int k) @ [int k]"
  unfolding py_range_def nat_int by simp

lemma py_range_Suc' [simp]: "py_range (1 + int k) = py_range (int k) @ [int k]"
  using py_range_Suc [of k] by simp

lemma py_range_0: "py_range 0 = []"
  by (simp add: py_range_def)

lemma length_py_range [simp]: "length (py_range n) = nat n"
  by (simp add: py_range_def)

lemma foldM_append:
  "foldM f (xs @ ys) s = (case foldM f xs s of Inl e \<Rightarrow> Inl e | Inr s' \<Rightarrow> foldM f ys s')"
  by (induction xs arbitrary: s) (simp_all split: sum.splits)

lemma foldM_Inr: "(\<And>x s. x \<in> set xs \<Longrightarrow> f x s = Inr (g x s)) \<Longrightarrow> foldM f xs s = Inr (fold g xs s)"
  by (induction xs arbitrary: s) simp_all

lemma dict_set_fresh: "k \<notin> fst ` set d \<Longrightarrow> dict_set k v d = d @ [(k, v)]"
  by (induction d) auto

lemma map_of_dict_set: "map_of (dict_set k v d) = (map_of d)(k \<mapsto> v)"
  by (induction d) (auto simp: fun_eq_iff)

lemma fst_set_dict_set: "fst ` set (dict_set k v d) = insert k (fst ` set d)"
  by (simp add: dom_map_of_conv_image_fst [symmetric] map_of_dict_set)

lemma next_port_alt:
  "next_port t nm = int (length (filter (touches nm) (g_edge t))) + (if node_isSwitch t nm then 1 else 0)"
  by (simp add: next_port_def touches_def [abs_def])

text \<open>The spine loop.\<close>

lemma spines_loop:
  "fold (\<lambda>s (spines, t).
         let nm = ''s'' @ str_int (s + 1)
         in (spines(s \<mapsto> nm), addSwitch nm ''OpenFlow13'' t))
       (py_range (int k)) (Map.empty, \<lparr>g_node = [], g_edge = []\<rparr>)
   = ((\<lambda>s. if 0 \<le> s \<and> s < int k then Some (''s'' @ str_int (s + 1)) else None),
      \<lparr>g_node = spine_nodes (int k), g_edge = []\<rparr>)"
proof (induction k)
  case 0
  show ?case by (auto simp: py_range_0 spine_nodes_def fun_eq_iff)
next
  case (Suc k)
  have fresh: "''s'' @ str_int (int k + 1) \<notin> fst ` set (spine_nodes (int k))"
    by (auto simp: spine_nodes_def)
  have nodes: "spine_nodes (1 + int k) = spine_nodes (int k) @ [(''s'' @ str_int (int k + 1), sw_opts)]"
    by (simp add: spine_nodes_def)
  have m: "(\<lambda>s. if 0 \<le> s \<and> s < int k then Some (''s'' @ str_int (s + 1)) else None)(int k \<mapsto> ''s'' @ str_int (int k + 1))
      = (\<lambda>s. if 0 \<le> s \<and> s < int (Suc k) then Some (''s'' @ str_int (s + 1)) else None)"
    by (auto simp: fun_eq_iff)
  show ?case
    unfolding py_range_Suc fold_append comp_def Suc.IH
    using fresh m by (simp add: addSwitch_def nodes dict_set_fresh sw_opts_def)
qed

lemma LeafAndSpine_spines_closed:
  "LeafAndSpine_spines spine =
     ((\<lambda>s. if 0 \<le> s \<and> s < spine then Some (''s'' @ str_int (s + 1)) else None),
      \<lparr>g_node = spine_nodes spine, g_edge = []\<rparr>)"
proof -
  have "LeafAndSpine_spines spine = ((\<lambda>s. if 0 \<le> s \<and> s < int (nat spine) then Some (''s'' @ str_int (s + 1)) else None),
      \<lparr>g_node = spine_nodes (int (nat spine)), g_edge = []\<rparr>)"
    unfolding LeafAndSpine_spines_def py_range_int [of spine] by (rule spines_loop)
  moreover have "spine_nodes (int (nat spine)) = spine_nodes spine"
    unfolding spine_nodes_def py_range_int [of spine, symmetric] ..
  moreover have "(\<lambda>s. if 0 \<le> s \<and> s < int (nat spine) then Some (''s'' @ str_int (s + 1)) else None)
     = (\<lambda>s. if 0 \<le> s \<and> s < spine then Some (''s'' @ str_int (s + 1)) else None)"
    by (auto simp: fun_eq_iff)
  ultimately show ?thesis by simp
qed


lemma node_isSwitch_edges [simp]: "node_isSwitch (t\<lparr>g_edge := es\<rparr>) nm = node_isSwitch t nm"
  by (simp add: node_isSwitch_def)

lemma next_port_edges_append:
  "next_port (t\<lparr>g_edge := g_edge t @ es\<rparr>) nm = next_port t nm + int (length (filter (touches nm) es))"
  by (simp add: next_port_alt)

lemma next_port_more:
  "g_edge t' = g_edge t @ es \<Longrightarrow> node_isSwitch t' nm = node_isSwitch t nm \<Longrightarrow>
     next_port t' nm = next_port t nm + int (length (filter (touches nm) es))"
  by (simp add: next_port_alt)

lemma next_port_new_host:
  "node_isSwitch t nm = False \<Longrightarrow> filter (touches nm) (g_edge t) = [] \<Longrightarrow> next_port t nm = 0"
  by (simp add: next_port_alt)

lemma map_of_append_other:
  assumes "k \<notin> fst ` set ys"
  shows "map_of (xs @ ys) k = map_of xs k"
proof -
  have "map_of ys k = None" using assms by (simp add: map_of_eq_None_iff)
  then show ?thesis by (simp add: map_add_def split: option.splits)
qed

lemma map_of_append_fresh:
  assumes "k \<notin> fst ` set xs"
  shows "map_of (xs @ [(k, v)]) k = Some v"
proof -
  have "map_of xs k = None" using assms by (simp add: map_of_eq_None_iff)
  then show ?thesis by (simp add: map_add_def split: option.splits)
qed

lemma filter_map_all: "(\<And>x. x \<in> set xs \<Longrightarrow> P (f x)) \<Longrightarrow> filter P (map f xs) = map f xs"
  by (induction xs) simp_all

lemma filter_map_none: "(\<And>x. x \<in> set xs \<Longrightarrow> \<not> P (f x)) \<Longrightarrow> filter P (map f xs) = []"
  by (induction xs) simp_all

lemma uplinks_loop:
  assumes sp: "\<And>s. 0 \<le> s \<Longrightarrow> s < int k \<Longrightarrow> spines s = Some (''s'' @ str_int (s + 1))"
    and lf: "\<And>s. 0 \<le> s \<Longrightarrow> s < int k \<Longrightarrow> lf \<noteq> ''s'' @ str_int (s + 1)"
  shows "foldM (\<lambda>s t. case spines s of
             None \<Rightarrow> Inl (KeyError (str_int s))
           | Some switch \<Rightarrow> Inr (addLink lf switch 10 t)) (py_range (int k)) t
     = Inr (t\<lparr>g_edge := g_edge t @
              map (\<lambda>s. \<lparr>node1 = lf, node2 = ''s'' @ str_int (s + 1),
                        port1 = next_port t lf + s, port2 = next_port t (''s'' @ str_int (s + 1)), bw = 10\<rparr>)
                (py_range (int k))\<rparr>)"
  using assms
proof (induction k)
  case 0
  show ?case by (simp add: py_range_0)
next
  case (Suc k)
  let ?mk = "\<lambda>s. \<lparr>node1 = lf, node2 = ''s'' @ str_int (s + 1),
                        port1 = next_port t lf + s, port2 = next_port t (''s'' @ str_int (s + 1)), bw = 10\<rparr>"
  let ?es = "map ?mk (py_range (int k))"
  let ?tk = "t\<lparr>g_edge := g_edge t @ ?es\<rparr>"
  have IH: "foldM (\<lambda>s t. case spines s of
             None \<Rightarrow> Inl (KeyError (str_int s))
           | Some switch \<Rightarrow> Inr (addLink lf switch 10 t)) (py_range (int k)) t = Inr ?tk"
    using Suc.prems by (intro Suc.IH) auto
  have spk: "spines (int k) = Some (''s'' @ str_int (int k + 1))"
    using Suc.prems(1) [of "int k"] by simp
  have lfk: "lf \<noteq> ''s'' @ str_int (int k + 1)"
    using Suc.prems(2) [of "int k"] by simp
  have all: "filter (touches lf) ?es = ?es"
    by (intro filter_map_all) (simp add: touches_def)
  have none: "filter (touches (''s'' @ str_int (int k + 1))) ?es = []"
    using lfk by (intro filter_map_none) (auto simp: touches_def)
  have p1: "next_port ?tk lf = next_port t lf + int k"
    unfolding next_port_edges_append all by simp
  have p2: "next_port ?tk (''s'' @ str_int (int k + 1)) = next_port t (''s'' @ str_int (int k + 1))"
    unfolding next_port_edges_append none by simp
  have "addLink lf (''s'' @ str_int (int k + 1)) 10 ?tk
      = t\<lparr>g_edge := g_edge t @ map ?mk (py_range (int (Suc k)))\<rparr>"
    unfolding addLink_def p1 p2 py_range_Suc by simp
  then show ?case
    unfolding py_range_Suc foldM_append IH by (simp add: spk)
qed

lemma hosts_loop:
  assumes fresh: "\<And>f. 0 \<le> f \<Longrightarrow> f < int k \<Longrightarrow> ''h'' @ str_int (ls * fanout + f + 1) \<notin> fst ` set (g_node t)"
    and untouched: "\<And>f. 0 \<le> f \<Longrightarrow> f < int k \<Longrightarrow> filter (touches (''h'' @ str_int (ls * fanout + f + 1))) (g_edge t) = []"
    and lf: "\<And>f. 0 \<le> f \<Longrightarrow> f < int k \<Longrightarrow> lf \<noteq> ''h'' @ str_int (ls * fanout + f + 1)"
  shows "fold (\<lambda>f t.
         let host = ''h'' @ str_int (ls * fanout + f + 1);
             t' = addHost host (''10.0.'' @ str_int ls @ ''.'' @ str_int (f + 1) @ ''/16'') t
         in addLink host lf 10 t')
       (py_range (int k)) t
     = t\<lparr>g_node := g_node t @ map (\<lambda>f. (''h'' @ str_int (ls * fanout + f + 1), host_opts ls f)) (py_range (int k)),
         g_edge := g_edge t @
              map (\<lambda>f. \<lparr>node1 = ''h'' @ str_int (ls * fanout + f + 1), node2 = lf,
                        port1 = 0, port2 = next_port t lf + f, bw = 10\<rparr>)
                (py_range (int k))\<rparr>"
  using assms
proof (induction k)
  case 0
  show ?case by (simp add: py_range_0)
next
  case (Suc k)
  let ?hn = "\<lambda>f. ''h'' @ str_int (ls * fanout + f + 1)"
  let ?body = "\<lambda>f t.
         let host = ''h'' @ str_int (ls * fanout + f + 1);
             t' = addHost host (''10.0.'' @ str_int ls @ ''.'' @ str_int (f + 1) @ ''/16'') t
         in addLink host lf 10 t'"
  let ?mk = "\<lambda>f. \<lparr>node1 = ?hn f, node2 = lf, port1 = 0, port2 = next_port t lf + f, bw = 10\<rparr>"
  let ?ns = "map (\<lambda>f. (?hn f, host_opts ls f)) (py_range (int k))"
  let ?es = "map ?mk (py_range (int k))"
  let ?tk = "t\<lparr>g_node := g_node t @ ?ns, g_edge := g_edge t @ ?es\<rparr>"
  have IH: "fold ?body (py_range (int k)) t = ?tk"
    using Suc.prems by (intro Suc.IH) auto
  have fr: "?hn (int k) \<notin> fst ` set (g_node t)"
    using Suc.prems(1) [of "int k"] by simp
  have fr': "?hn (int k) \<notin> fst ` set (g_node t @ ?ns)"
    using fr by (auto simp: image_iff)
  have ut: "filter (touches (?hn (int k))) (g_edge t) = []"
    using Suc.prems(2) [of "int k"] by simp
  have lfk: "lf \<noteq> ?hn (int k)"
    using Suc.prems(3) [of "int k"] by simp
  let ?t' = "addHost (?hn (int k)) (''10.0.'' @ str_int ls @ ''.'' @ str_int (int k + 1) @ ''/16'') ?tk"
  have t': "?t' = t\<lparr>g_node := g_node t @ ?ns @ [(?hn (int k), host_opts ls (int k))],
                     g_edge := g_edge t @ ?es\<rparr>"
    unfolding addHost_def using dict_set_fresh [OF fr'] by (simp add: host_opts_def)
  have nodes': "g_node ?t' = (g_node t @ ?ns) @ [(?hn (int k), host_opts ls (int k))]"
    unfolding t' by simp
  have "map_of (g_node ?t') (?hn (int k)) = Some (host_opts ls (int k))"
    unfolding nodes' using fr' by (rule map_of_append_fresh)
  then have sw_h: "node_isSwitch ?t' (?hn (int k)) = False"
    unfolding node_isSwitch_def by (simp add: host_opts_def)
  have nodes'': "g_node ?t' = g_node t @ (?ns @ [(?hn (int k), host_opts ls (int k))])"
    unfolding t' by simp
  have "lf \<notin> fst ` set (?ns @ [(?hn (int k), host_opts ls (int k))])"
    using Suc.prems(3) by (auto simp: image_iff)
  then have "map_of (g_node ?t') lf = map_of (g_node t) lf"
    unfolding nodes'' by (rule map_of_append_other)
  then have sw_lf: "node_isSwitch ?t' lf = node_isSwitch t lf"
    unfolding node_isSwitch_def by simp
  have none: "filter (touches (?hn (int k))) ?es = []"
    using lfk by (intro filter_map_none) (auto simp: touches_def)
  have all: "filter (touches lf) ?es = ?es"
    by (intro filter_map_all) (simp add: touches_def)
  have edges': "g_edge ?t' = g_edge t @ ?es" unfolding t' by simp
  have "filter (touches (?hn (int k))) (g_edge ?t') = []"
    unfolding edges' filter_append ut none by simp
  with sw_h have p1: "next_port ?t' (?hn (int k)) = 0"
    by (rule next_port_new_host)
  have "next_port ?t' lf = next_port t lf + int (length (filter (touches lf) ?es))"
    using edges' sw_lf by (rule next_port_more)
  then have p2: "next_port ?t' lf = next_port t lf + int k"
    unfolding all by simp
  have "addLink (?hn (int k)) lf 10 ?t'
      = ?t'\<lparr>g_edge := g_edge ?t' @ [?mk (int k)]\<rparr>"
    unfolding addLink_def p1 p2 ..
  also have "\<dots> = t\<lparr>g_node := g_node t @ map (\<lambda>f. (?hn f, host_opts ls f)) (py_range (int (Suc k))),
           g_edge := g_edge t @ map ?mk (py_range (int (Suc k)))\<rparr>"
    unfolding t' py_range_Suc by simp
  finally have "addLink (?hn (int k)) lf 10 ?t'
      = t\<lparr>g_node := g_node t @ map (\<lambda>f. (?hn f, host_opts ls f)) (py_range (int (Suc k))),
           g_edge := g_edge t @ map ?mk (py_range (int (Suc k)))\<rparr>" .
  then show ?case
    unfolding py_range_Suc fold_append comp_def IH by (simp add: Let_def)
qed



lemma host_index_inj:
  fixes a b f f' n :: int
  assumes "0 \<le> f" "f < n" "0 \<le> f'" "f' < n" "a * n + f = b * n + f'"
  shows "a = b \<and> f = f'"
proof -
  have n: "0 < n" using assms by linarith
  have d: "(x * n + y) div n = x" if "0 \<le> y" "y < n" for x y
    using that n by simp
  have "(a * n + f) div n = (b * n + f') div n" by (simp only: assms(5))
  then have "a = b" by (simp only: d [OF assms(1,2)] d [OF assms(3,4)])
  with assms(5) show ?thesis by simp
qed

lemma filter_eq_single: "distinct xs \<Longrightarrow> x \<in> set xs \<Longrightarrow> filter (\<lambda>y. y = x) xs = [x]"
proof (induction xs)
  case Nil
  then show ?case by simp
next
  case (Cons a xs)
  show ?case
  proof (cases "a = x")
    case True
    with Cons.prems have "filter (\<lambda>y. y = x) xs = []" by (auto simp: filter_empty_conv)
    with True show ?thesis by simp
  next
    case False
    with Cons show ?thesis by simp
  qed
qed

lemma length_filter_concat:
  "length (filter P (concat (map g xs))) = sum_list (map (\<lambda>x. length (filter P (g x))) xs)"
  by (induction xs) simp_all

lemma sum_list_const_one: "(\<And>x. x \<in> set xs \<Longrightarrow> h x = (1::nat)) \<Longrightarrow> sum_list (map h xs) = length xs"
  by (induction xs) simp_all


lemma fst_spine_nodes: "fst ` set (spine_nodes spine) = {''s'' @ str_int (s + 1) | s. 0 \<le> s \<and> s < spine}"
  by (auto simp: spine_nodes_def image_iff)

lemma fst_leaf_nodes:
  "fst ` set (leaf_nodes spine fanout ls) =
     insert (''s'' @ str_int (spine + ls + 1)) {''h'' @ str_int (ls * fanout + f + 1) | f. 0 \<le> f \<and> f < fanout}"
  by (auto simp: leaf_nodes_def image_iff)

lemma fabric_node_names: "fst ` set (g_node (fabric spine leaf fanout)) = fabric_names spine leaf fanout"
proof -
  have "fst ` set (g_node (fabric spine leaf fanout)) =
      fst ` set (spine_nodes spine) \<union> (\<Union>ls \<in> set (py_range leaf). fst ` set (leaf_nodes spine fanout ls))"
    by (simp add: fabric_def image_Un image_UN)
  also have "\<dots> = fabric_names spine leaf fanout"
    unfolding fst_spine_nodes fst_leaf_nodes fabric_names_def by auto
  finally show ?thesis .
qed

lemma fabric_edge_ends:
  assumes "l \<in> set (g_edge (fabric spine leaf fanout))"
  shows "node1 l \<in> fabric_names spine leaf fanout \<and> node2 l \<in> fabric_names spine leaf fanout"
proof -
  from assms obtain ls where ls: "0 \<le> ls" "ls < leaf"
    and l: "l \<in> set (uplink_edges spine ls) \<or> l \<in> set (host_edges spine fanout ls)"
    by (auto simp: fabric_def)
  from l show ?thesis
  proof
    assume "l \<in> set (uplink_edges spine ls)"
    then obtain s where "0 \<le> s" "s < spine" "node1 l = ''s'' @ str_int (spine + ls + 1)"
      "node2 l = ''s'' @ str_int (s + 1)"
      by (auto simp: uplink_edges_def)
    with ls show ?thesis unfolding fabric_names_def by blast
  next
    assume "l \<in> set (host_edges spine fanout ls)"
    then obtain f where "0 \<le> f" "f < fanout" "node1 l = ''h'' @ str_int (ls * fanout + f + 1)"
      "node2 l = ''s'' @ str_int (spine + ls + 1)"
      by (auto simp: host_edges_def)
    with ls show ?thesis unfolding fabric_names_def by blast
  qed
qed

lemma fabric_untouched:
  "nm \<notin> fabric_names spine leaf fanout \<Longrightarrow> filter (touches nm) (g_edge (fabric spine leaf fanout)) = []"
  using fabric_edge_ends [of _ spine leaf fanout] by (auto simp: filter_empty_conv touches_def)

lemma fabric_isSwitch:
  "(nm, opts) \<in> set (g_node (fabric spine leaf fanout)) \<Longrightarrow> isSwitch opts = (hd nm = CHR ''s'')"
  by (auto simp: fabric_def spine_nodes_def leaf_nodes_def sw_opts_def host_opts_def)

lemma node_isSwitch_by_name:
  assumes "\<And>n opts. (n, opts) \<in> set (g_node t) \<Longrightarrow> isSwitch opts = (hd n = CHR ''s'')"
    and "nm \<in> fst ` set (g_node t)"
  shows "node_isSwitch t nm = (hd nm = CHR ''s'')"
proof -
  from assms(2) obtain opts where "map_of (g_node t) nm = Some opts"
    by (cases "map_of (g_node t) nm") (auto simp: map_of_eq_None_iff)
  moreover from this have "(nm, opts) \<in> set (g_node t)" by (rule map_of_SomeD)
  ultimately show ?thesis using assms(1) by (simp add: node_isSwitch_def)
qed

lemma new_leaf_fresh: "''s'' @ str_int (spine + int k + 1) \<notin> fabric_names spine (int k) fanout"
  by (auto simp: fabric_names_def)

lemma new_host_fresh:
  assumes "0 \<le> f" "f < fanout"
  shows "''h'' @ str_int (int k * fanout + f + 1) \<notin> fabric_names spine (int k) fanout"
proof
  assume "''h'' @ str_int (int k * fanout + f + 1) \<in> fabric_names spine (int k) fanout"
  then obtain ls f' where "0 \<le> ls" "ls < int k" "0 \<le> f'" "f' < fanout"
    "int k * fanout + f = ls * fanout + f'"
    by (auto simp: fabric_names_def)
  with assms host_index_inj [of f fanout f' "int k" ls] show False by simp
qed

lemma spine_degree:
  assumes "0 \<le> s" "s < spine"
  shows "length (filter (touches (''s'' @ str_int (s + 1))) (g_edge (fabric spine (int k) fanout))) = k"
proof -
  let ?nm = "''s'' @ str_int (s + 1)"
  have one: "length (filter (touches ?nm) (uplink_edges spine ls @ host_edges spine fanout ls)) = 1"
    if "0 \<le> ls" for ls
  proof -
    have "filter (touches ?nm) (uplink_edges spine ls) =
        map (\<lambda>s. \<lparr>node1 = ''s'' @ str_int (spine + ls + 1), node2 = ''s'' @ str_int (s + 1),
               port1 = s + 1, port2 = ls + 1, bw = 10\<rparr>) (filter (\<lambda>y. y = s) (py_range spine))"
      unfolding uplink_edges_def filter_map using that assms
      by (intro arg_cong2 [where f = map] filter_cong refl) (auto simp: touches_def)
    also have "filter (\<lambda>y. y = s) (py_range spine) = [s]"
      using assms by (intro filter_eq_single) simp_all
    finally have up: "length (filter (touches ?nm) (uplink_edges spine ls)) = 1" by simp
    have "filter (touches ?nm) (host_edges spine fanout ls) = []"
      unfolding host_edges_def using that assms by (intro filter_map_none) (auto simp: touches_def)
    with up show ?thesis by simp
  qed
  have "length (filter (touches ?nm) (g_edge (fabric spine (int k) fanout)))
      = sum_list (map (\<lambda>ls. length (filter (touches ?nm) (uplink_edges spine ls @ host_edges spine fanout ls)))
          (py_range (int k)))"
    unfolding fabric_def by (simp only: Topo.simps length_filter_concat)
  also have "\<dots> = length (py_range (int k))"
    by (intro sum_list_const_one one) simp
  finally show ?thesis by simp
qed



lemma fabric_Suc:
  "fabric spine (int (Suc k)) fanout =
     \<lparr>g_node = g_node (fabric spine (int k) fanout) @ leaf_nodes spine fanout (int k),
      g_edge = g_edge (fabric spine (int k) fanout) @ uplink_edges spine (int k) @ host_edges spine fanout (int k)\<rparr>"
  unfolding fabric_def py_range_Suc by simp

lemma leaf_step:
  fixes spine :: int
  defines "spines \<equiv> (\<lambda>s. if 0 \<le> s \<and> s < spine then Some (''s'' @ str_int (s + 1)) else None)"
  shows "(let leafSwitch = ''s'' @ str_int (spine + int k + 1);
              t' = addSwitch leafSwitch ''OpenFlow13'' (fabric spine (int k) fanout)
          in case LeafAndSpine_uplinks spines spine leafSwitch t' of
               Inl e \<Rightarrow> Inl e
             | Inr t'' \<Rightarrow> Inr (LeafAndSpine_hosts fanout (int k) leafSwitch t''))
         = Inr (fabric spine (int (Suc k)) fanout)"
proof -
  let ?F = "fabric spine (int k) fanout"
  let ?L = "''s'' @ str_int (spine + int k + 1)"
  let ?sn = "\<lambda>s. ''s'' @ str_int (s + 1)"
  let ?hn = "\<lambda>f. ''h'' @ str_int (int k * fanout + f + 1)"
  let ?t1 = "addSwitch ?L ''OpenFlow13'' ?F"
  have Lfresh: "?L \<notin> fst ` set (g_node ?F)"
    unfolding fabric_node_names by (rule new_leaf_fresh)
  have t1: "?t1 = ?F\<lparr>g_node := g_node ?F @ [(?L, sw_opts)]\<rparr>"
    unfolding addSwitch_def using dict_set_fresh [OF Lfresh] by (simp add: sw_opts_def)
  have t1_nodes: "g_node ?t1 = g_node ?F @ [(?L, sw_opts)]" unfolding t1 by simp
  have t1_edges: "g_edge ?t1 = g_edge ?F" unfolding t1 by simp
  have t1_sw: "isSwitch opts = (hd n = CHR ''s'')" if "(n, opts) \<in> set (g_node ?t1)" for n opts
    using that fabric_isSwitch [of n opts spine "int k" fanout] unfolding t1_nodes
    by (auto simp: sw_opts_def)
  have L_sw: "node_isSwitch ?t1 ?L"
    using node_isSwitch_by_name [of ?t1 ?L, OF t1_sw] unfolding t1_nodes by simp
  have sn_sw: "node_isSwitch ?t1 (?sn s)" if "0 \<le> s" "s < spine" for s
  proof -
    have "?sn s \<in> fabric_names spine (int k) fanout"
      using that unfolding fabric_names_def by blast
    then have "?sn s \<in> fst ` set (g_node ?t1)"
      unfolding t1_nodes fabric_node_names [symmetric] by simp
    from node_isSwitch_by_name [of ?t1 "?sn s", OF t1_sw this] show ?thesis by simp
  qed
  have L_untouched: "filter (touches ?L) (g_edge ?t1) = []"
    unfolding t1_edges by (rule fabric_untouched) (rule new_leaf_fresh)
  have pL: "next_port ?t1 ?L = 1"
    unfolding next_port_alt L_untouched using L_sw by simp
  have psn: "next_port ?t1 (?sn s) = int k + 1" if "0 \<le> s" "s < spine" for s
    unfolding next_port_alt t1_edges spine_degree [OF that] using sn_sw [OF that] by simp
  text \<open>the uplinks\<close>
  have range_spine: "py_range (int (nat spine)) = py_range spine"
    by (rule py_range_int [symmetric])
  have "LeafAndSpine_uplinks spines spine ?L ?t1
      = Inr (?t1\<lparr>g_edge := g_edge ?t1 @
              map (\<lambda>s. \<lparr>node1 = ?L, node2 = ?sn s,
                        port1 = next_port ?t1 ?L + s, port2 = next_port ?t1 (?sn s), bw = 10\<rparr>)
                (py_range (int (nat spine)))\<rparr>)"
    unfolding LeafAndSpine_uplinks_def range_spine [symmetric]
    by (intro uplinks_loop) (auto simp: spines_def split: if_splits)
  also have "map (\<lambda>s. \<lparr>node1 = ?L, node2 = ?sn s,
                        port1 = next_port ?t1 ?L + s, port2 = next_port ?t1 (?sn s), bw = 10\<rparr>)
                (py_range (int (nat spine))) = uplink_edges spine (int k)"
    unfolding range_spine uplink_edges_def pL
    by (rule map_cong [OF refl]) (use psn in simp)
  finally have up: "LeafAndSpine_uplinks spines spine ?L ?t1
      = Inr (?t1\<lparr>g_edge := g_edge ?F @ uplink_edges spine (int k)\<rparr>)"
    unfolding t1_edges .
  let ?t2 = "?t1\<lparr>g_edge := g_edge ?F @ uplink_edges spine (int k)\<rparr>"
  have t2_nodes: "g_node ?t2 = g_node ?F @ [(?L, sw_opts)]" unfolding t1 by simp
  have t2_edges: "g_edge ?t2 = g_edge ?t1 @ uplink_edges spine (int k)" unfolding t1 by simp
  have "next_port ?t2 ?L = next_port ?t1 ?L + int (length (filter (touches ?L) (uplink_edges spine (int k))))"
    using t2_edges by (rule next_port_more) simp
  also have "filter (touches ?L) (uplink_edges spine (int k)) = uplink_edges spine (int k)"
    unfolding uplink_edges_def by (rule filter_map_all) (simp add: touches_def)
  finally have pL2: "next_port ?t2 ?L = int (nat spine) + 1"
    unfolding pL by (simp add: uplink_edges_def)
  text \<open>the hosts\<close>
  have range_fanout: "py_range (int (nat fanout)) = py_range fanout"
    by (rule py_range_int [symmetric])
  have h_fresh: "?hn f \<notin> fst ` set (g_node ?t2)" if "0 \<le> f" "f < int (nat fanout)" for f
  proof -
    from that have "?hn f \<notin> fabric_names spine (int k) fanout"
      by (intro new_host_fresh) (simp_all split: if_splits)
    then show ?thesis unfolding t2_nodes fabric_node_names [symmetric] by simp
  qed
  have h_untouched: "filter (touches (?hn f)) (g_edge ?t2) = []" if "0 \<le> f" "f < int (nat fanout)" for f
  proof -
    from that have "?hn f \<notin> fabric_names spine (int k) fanout"
      by (intro new_host_fresh) (simp_all split: if_splits)
    then have "filter (touches (?hn f)) (g_edge ?F) = []" by (rule fabric_untouched)
    moreover have "filter (touches (?hn f)) (uplink_edges spine (int k)) = []"
      unfolding uplink_edges_def by (rule filter_map_none) (simp add: touches_def)
    ultimately show ?thesis unfolding t2_edges t1_edges by simp
  qed
  have "LeafAndSpine_hosts fanout (int k) ?L ?t2
      = ?t2\<lparr>g_node := g_node ?t2 @ map (\<lambda>f. (?hn f, host_opts (int k) f)) (py_range (int (nat fanout))),
           g_edge := g_edge ?t2 @
              map (\<lambda>f. \<lparr>node1 = ?hn f, node2 = ?L, port1 = 0, port2 = next_port ?t2 ?L + f, bw = 10\<rparr>)
                (py_range (int (nat fanout)))\<rparr>"
    unfolding LeafAndSpine_hosts_def range_fanout [symmetric]
  proof (rule hosts_loop)
    fix f :: int
    assume f: "0 \<le> f" "f < int (nat fanout)"
    from f show "?hn f \<notin> fst ` set (g_node ?t2)" by (rule h_fresh)
    from f show "filter (touches (?hn f)) (g_edge ?t2) = []" by (rule h_untouched)
    show "?L \<noteq> ?hn f" by simp
  qed
  also have "\<dots> = fabric spine (int (Suc k)) fanout"
    unfolding fabric_Suc range_fanout pL2 t2_nodes t2_edges t1_edges
    by (simp add: leaf_nodes_def host_edges_def)
  finally have hosts: "LeafAndSpine_hosts fanout (int k) ?L ?t2 = fabric spine (int (Suc k)) fanout" .
  show ?thesis
    unfolding Let_def up by (simp only: sum.case hosts)
qed

lemma LeafAndSpine_closed:
  "LeafAndSpine spine leaf fanout = Inr (fabric spine leaf fanout)"
proof -
  let ?spines = "\<lambda>s. if 0 \<le> s \<and> s < spine then Some (''s'' @ str_int (s + 1)) else None"
  let ?body = "\<lambda>ls t.
             let leafSwitch = ''s'' @ str_int (spine + ls + 1);
                 t' = addSwitch leafSwitch ''OpenFlow13'' t
             in case LeafAndSpine_uplinks ?spines spine leafSwitch t' of
                  Inl e \<Rightarrow> Inl e
                | Inr t'' \<Rightarrow> Inr (LeafAndSpine_hosts fanout ls leafSwitch t'')"
  have loop: "foldM ?body (py_range (int k)) (fabric spine 0 fanout) = Inr (fabric spine (int k) fanout)" for k
  proof (induction k)
    case 0
    show ?case by (simp add: py_range_0)
  next
    case (Suc k)
    have "?body (int k) (fabric spine (int k) fanout) = Inr (fabric spine (int (Suc k)) fanout)"
      using leaf_step [of spine k fanout] .
    then show ?case
      unfolding py_range_Suc foldM_append Suc.IH by (simp only: sum.case foldM.simps)
  qed
  have start: "\<lparr>g_node = spine_nodes spine, g_edge = []\<rparr> = fabric spine 0 fanout"
    by (simp add: fabric_def py_range_0)
  have "LeafAndSpine spine leaf fanout = foldM ?body (py_range (int (nat leaf))) (fabric spine 0 fanout)"
    unfolding LeafAndSpine_def LeafAndSpine_spines_closed start py_range_int [of leaf, symmetric]
    by simp
  also have "\<dots> = Inr (fabric spine (int (nat leaf)) fanout)" by (rule loop)
  also have "fabric spine (int (nat leaf)) fanout = fabric spine leaf fanout"
    unfolding fabric_def py_range_int [of leaf, symmetric] ..
  finally show ?thesis .
qed



lemma topo_switches_fabric:
  "topo_switches (fabric spine leaf fanout) =
     map (\<lambda>s. ''s'' @ str_int (s + 1)) (py_range spine) @
     map (\<lambda>ls. ''s'' @ str_int (spine + ls + 1)) (py_range leaf)"
proof -
  let ?P = "\<lambda>(nm :: string, opts). isSwitch opts"
  have sp: "filter ?P (spine_nodes spine) = spine_nodes spine"
    unfolding spine_nodes_def by (rule filter_map_all) (simp add: sw_opts_def)
  have lf: "filter ?P (leaf_nodes spine fanout ls) = [(''s'' @ str_int (spine + ls + 1), sw_opts)]" for ls
  proof -
    have "filter ?P (map (\<lambda>f. (''h'' @ str_int (ls * fanout + f + 1), host_opts ls f)) (py_range fanout)) = []"
      by (rule filter_map_none) (simp add: host_opts_def)
    then show ?thesis unfolding leaf_nodes_def by (simp add: sw_opts_def)
  qed
  have "filter ?P (g_node (fabric spine leaf fanout)) =
      spine_nodes spine @ concat (map (\<lambda>ls. [(''s'' @ str_int (spine + ls + 1), sw_opts)]) (py_range leaf))"
    unfolding fabric_def by (simp only: Topo.simps filter_append sp filter_concat_map lf)
  then show ?thesis
    unfolding topo_switches_def by (simp add: spine_nodes_def comp_def concat_map_singleton)
qed

lemma topo_hosts_fabric:
  "topo_hosts (fabric spine leaf fanout) =
     concat (map (\<lambda>ls. map (\<lambda>f. ''h'' @ str_int (ls * fanout + f + 1)) (py_range fanout)) (py_range leaf))"
proof -
  let ?P = "\<lambda>(nm :: string, opts). \<not> isSwitch opts"
  have sp: "filter ?P (spine_nodes spine) = []"
    unfolding spine_nodes_def by (rule filter_map_none) (simp add: sw_opts_def)
  have lf: "filter ?P (leaf_nodes spine fanout ls) =
      map (\<lambda>f. (''h'' @ str_int (ls * fanout + f + 1), host_opts ls f)) (py_range fanout)" for ls
  proof -
    have "filter ?P (map (\<lambda>f. (''h'' @ str_int (ls * fanout + f + 1), host_opts ls f)) (py_range fanout))
        = map (\<lambda>f. (''h'' @ str_int (ls * fanout + f + 1), host_opts ls f)) (py_range fanout)"
      by (rule filter_map_all) (simp add: host_opts_def)
    then show ?thesis unfolding leaf_nodes_def by (simp add: sw_opts_def)
  qed
  have "filter ?P (g_node (fabric spine leaf fanout)) =
      concat (map (\<lambda>ls. map (\<lambda>f. (''h'' @ str_int (ls * fanout + f + 1), host_opts ls f)) (py_range fanout))
         (py_range leaf))"
    unfolding fabric_def by (simp only: Topo.simps filter_append sp filter_concat_map lf append_Nil)
  then show ?thesis
    unfolding topo_hosts_def by (simp add: map_concat comp_def)
qed

lemma length_concat_const:
  "(\<And>x. x \<in> set xs \<Longrightarrow> length (g x) = n) \<Longrightarrow> length (concat (map g xs)) = length xs * n"
  by (induction xs) simp_all

lemma concat_map_product:
  "concat (map (\<lambda>x. map (h x) ys) xs) = map (\<lambda>(x, y). h x y) (List.product xs ys)"
  by (induction xs) (simp_all add: comp_def)




lemma distinct_topo_switches_fabric: "distinct (topo_switches (fabric spine leaf fanout))"
proof -
  have 1: "distinct (map (\<lambda>s. ''s'' @ str_int (s + 1)) (py_range spine))"
    by (simp add: distinct_map inj_on_def)
  have 2: "distinct (map (\<lambda>ls. ''s'' @ str_int (spine + ls + 1)) (py_range leaf))"
    by (simp add: distinct_map inj_on_def)
  have 3: "set (map (\<lambda>s. ''s'' @ str_int (s + 1)) (py_range spine)) \<inter>
      set (map (\<lambda>ls. ''s'' @ str_int (spine + ls + 1)) (py_range leaf)) = {}"
  proof (rule ccontr)
    assume "\<not> ?thesis"
    then obtain s ls where "0 \<le> s" "s < spine" "0 \<le> ls" "s + 1 = spine + ls + 1"
      by auto
    then show False by linarith
  qed
  show ?thesis unfolding topo_switches_fabric distinct_append using 1 2 3 by blast
qed

lemma distinct_topo_hosts_fabric: "distinct (topo_hosts (fabric spine leaf fanout))"
proof -
  have "inj_on (\<lambda>(ls, f). ''h'' @ str_int (ls * fanout + f + 1))
          (set (List.product (py_range leaf) (py_range fanout)))"
  proof (rule inj_onI)
    fix p q
    assume p: "p \<in> set (List.product (py_range leaf) (py_range fanout))"
      and q: "q \<in> set (List.product (py_range leaf) (py_range fanout))"
      and eq: "(case p of (ls, f) \<Rightarrow> ''h'' @ str_int (ls * fanout + f + 1)) =
               (case q of (ls, f) \<Rightarrow> ''h'' @ str_int (ls * fanout + f + 1))"
    obtain ls f where pq: "p = (ls, f)" by (cases p)
    obtain ls' f' where qq: "q = (ls', f')" by (cases q)
    from p q eq have "0 \<le> f" "f < fanout" "0 \<le> f'" "f' < fanout" "ls * fanout + f = ls' * fanout + f'"
      unfolding pq qq by simp_all
    then have "ls = ls' \<and> f = f'" by (rule host_index_inj)
    then show "p = q" unfolding pq qq by simp
  qed
  then show ?thesis
    unfolding topo_hosts_fabric concat_map_product
    by (simp add: distinct_map distinct_product)
qed

lemma concat_map_concat:
  "concat (map f (concat (map g xs))) = concat (map (\<lambda>x. concat (map f (g x))) xs)"
  by (induction xs) simp_all

lemma topo_ports_alt: "topo_ports t nm = concat (map (port_entries nm) (g_edge t))"
  by (simp add: topo_ports_def port_entries_def [abs_def])

lemma concat_map_if:
  "(\<And>y. y \<in> set xs \<Longrightarrow> h y = (if c then [g y] else [])) \<Longrightarrow>
     concat (map h xs) = (if c then map g xs else [])"
  by (induction xs) simp_all

lemma concat_map_pick:
  assumes "distinct xs" "x \<in> set xs"
    and "\<And>y. y \<in> set xs \<Longrightarrow> h y = (if y = x then [g y] else [])"
  shows "concat (map h xs) = [g x]"
proof -
  have "concat (map h xs) = h x"
    using assms by (intro concat_map_single) simp_all
  with assms show ?thesis by simp
qed

lemma uplink_entries_leaf:
  assumes "0 \<le> ls"
  shows "concat (map (port_entries (''s'' @ str_int (spine + ls + 1))) (uplink_edges spine x)) =
     (if x = ls then map (\<lambda>s. (s + 1, ''s'' @ str_int (s + 1), ls + 1)) (py_range spine) else [])"
proof -
  have "concat (map (\<lambda>s. port_entries (''s'' @ str_int (spine + ls + 1))
           \<lparr>node1 = ''s'' @ str_int (spine + x + 1), node2 = ''s'' @ str_int (s + 1),
               port1 = s + 1, port2 = x + 1, bw = 10\<rparr>) (py_range spine))
      = (if x = ls then map (\<lambda>s. (s + 1, ''s'' @ str_int (s + 1), ls + 1)) (py_range spine) else [])"
    using assms by (intro concat_map_if) (auto simp: port_entries_def)
  then show ?thesis by (simp add: uplink_edges_def comp_def)
qed

lemma host_entries_leaf:
  "concat (map (port_entries (''s'' @ str_int (spine + ls + 1))) (host_edges spine fanout x)) =
     (if x = ls
      then map (\<lambda>f. (int (nat spine) + f + 1, ''h'' @ str_int (ls * fanout + f + 1), 0)) (py_range fanout)
      else [])"
proof -
  have "concat (map (\<lambda>f. port_entries (''s'' @ str_int (spine + ls + 1))
           \<lparr>node1 = ''h'' @ str_int (x * fanout + f + 1), node2 = ''s'' @ str_int (spine + x + 1),
               port1 = 0, port2 = int (nat spine) + f + 1, bw = 10\<rparr>) (py_range fanout))
      = (if x = ls
         then map (\<lambda>f. (int (nat spine) + f + 1, ''h'' @ str_int (ls * fanout + f + 1), 0)) (py_range fanout)
         else [])"
    by (intro concat_map_if) (auto simp: port_entries_def)
  then show ?thesis by (simp add: host_edges_def comp_def)
qed

lemma topo_ports_leaf:
  assumes "0 \<le> ls" "ls < leaf"
  shows "topo_ports (fabric spine leaf fanout) (''s'' @ str_int (spine + ls + 1)) =
     map (\<lambda>s. (s + 1, ''s'' @ str_int (s + 1), ls + 1)) (py_range spine) @
     map (\<lambda>f. (int (nat spine) + f + 1, ''h'' @ str_int (ls * fanout + f + 1), 0)) (py_range fanout)"
proof -
  let ?L = "''s'' @ str_int (spine + ls + 1)"
  let ?h = "\<lambda>x. concat (map (port_entries ?L) (uplink_edges spine x @ host_edges spine fanout x))"
  have h: "?h x = (if x = ls then map (\<lambda>s. (s + 1, ''s'' @ str_int (s + 1), ls + 1)) (py_range spine) @
     map (\<lambda>f. (int (nat spine) + f + 1, ''h'' @ str_int (ls * fanout + f + 1), 0)) (py_range fanout) else [])" for x
    unfolding map_append concat_append uplink_entries_leaf [OF assms(1)] host_entries_leaf by simp
  have "topo_ports (fabric spine leaf fanout) ?L = concat (map ?h (py_range leaf))"
    unfolding topo_ports_alt fabric_def by (simp only: Topo.simps concat_map_concat)
  also have "\<dots> = ?h ls"
  proof (rule concat_map_single)
    show "distinct (py_range leaf)" by simp
    show "ls \<in> set (py_range leaf)" using assms by simp
    show "?h y = []" if "y \<in> set (py_range leaf)" "y \<noteq> ls" for y
      unfolding h using that by simp
  qed
  finally show ?thesis unfolding h by simp
qed

lemma uplink_entries_spine:
  assumes "0 \<le> s" "s < spine" "0 \<le> x"
  shows "concat (map (port_entries (''s'' @ str_int (s + 1))) (uplink_edges spine x)) =
     [(x + 1, ''s'' @ str_int (spine + x + 1), s + 1)]"
proof -
  have "concat (map (\<lambda>s'. port_entries (''s'' @ str_int (s + 1))
           \<lparr>node1 = ''s'' @ str_int (spine + x + 1), node2 = ''s'' @ str_int (s' + 1),
               port1 = s' + 1, port2 = x + 1, bw = 10\<rparr>) (py_range spine))
      = [(x + 1, ''s'' @ str_int (spine + x + 1), s + 1)]"
    using assms by (intro concat_map_pick [where g = "\<lambda>s'. (x + 1, ''s'' @ str_int (spine + x + 1), s' + 1)"])
      (auto simp: port_entries_def)
  then show ?thesis by (simp add: uplink_edges_def comp_def)
qed

lemma host_entries_spine:
  assumes "0 \<le> s" "s < spine" "0 \<le> x"
  shows "concat (map (port_entries (''s'' @ str_int (s + 1))) (host_edges spine fanout x)) = []"
proof -
  have "concat (map (\<lambda>f. port_entries (''s'' @ str_int (s + 1))
           \<lparr>node1 = ''h'' @ str_int (x * fanout + f + 1), node2 = ''s'' @ str_int (spine + x + 1),
               port1 = 0, port2 = int (nat spine) + f + 1, bw = 10\<rparr>) (py_range fanout)) = []"
    using assms by (intro concat_map_none) (auto simp: port_entries_def)
  then show ?thesis by (simp add: host_edges_def comp_def)
qed

lemma topo_ports_spine:
  assumes "0 \<le> s" "s < spine"
  shows "topo_ports (fabric spine leaf fanout) (''s'' @ str_int (s + 1)) =
     map (\<lambda>ls. (ls + 1, ''s'' @ str_int (spine + ls + 1), s + 1)) (py_range leaf)"
proof -
  let ?S = "''s'' @ str_int (s + 1)"
  let ?h = "\<lambda>x. concat (map (port_entries ?S) (uplink_edges spine x @ host_edges spine fanout x))"
  have h: "?h x = [(x + 1, ''s'' @ str_int (spine + x + 1), s + 1)]" if "x \<in> set (py_range leaf)" for x
  proof -
    from that have x: "0 \<le> x" by simp
    show ?thesis
      unfolding map_append concat_append uplink_entries_spine [OF assms x] host_entries_spine [OF assms x]
      by simp
  qed
  have "topo_ports (fabric spine leaf fanout) ?S = concat (map ?h (py_range leaf))"
    unfolding topo_ports_alt fabric_def by (simp only: Topo.simps concat_map_concat)
  also have "\<dots> = concat (map (\<lambda>x. [(x + 1, ''s'' @ str_int (spine + x + 1), s + 1)]) (py_range leaf))"
    by (intro arg_cong [where f = concat] map_cong refl h)
  finally show ?thesis by (simp add: concat_map_singleton)
qed


section \<open>Shape of the built fabric\<close>


lemma length_topo_switches_fabric:
  "length (topo_switches (fabric spine leaf fanout)) = nat spine + nat leaf"
  by (simp add: topo_switches_fabric)

lemma length_topo_hosts_fabric:
  "length (topo_hosts (fabric spine leaf fanout)) = nat leaf * nat fanout"
  unfolding topo_hosts_fabric by (subst length_concat_const [where n = "nat fanout"]) simp_all

text \<open>
  C1. For \<open>spine\<close>, \<open>leaf\<close>, \<open>fanout\<close> of at least 1, \<open>LeafAndSpine\<close> returns a graph
  with exactly \<open>spine + leaf\<close> switches and \<open>leaf * fanout\<close> hosts, all of different
  names; and the ports of the leaf switch of index \<open>ls\<close> are, in order, the ports
  \<open>1..spine\<close> linked to the spine switches \<open>s1..s<spine>\<close> (at their port \<open>ls + 1\<close>),
  then the ports \<open>spine + 1..spine + fanout\<close> linked to the hosts of that leaf.
\<close>

theorem LeafAndSpine_shape:
  assumes "1 \<le> spine" "1 \<le> leaf" "1 \<le> fanout"
  shows "\<exists>t. LeafAndSpine spine leaf fanout = Inr t \<and>
     length (topo_switches t) = nat (spine + leaf) \<and> distinct (topo_switches t) \<and>
     length (topo_hosts t) = nat (leaf * fanout) \<and> distinct (topo_hosts t) \<and>
     (\<forall>ls. 0 \<le> ls \<and> ls < leaf \<longrightarrow>
        topo_ports t (''s'' @ str_int (spine + ls + 1)) =
          map (\<lambda>s. (s + 1, ''s'' @ str_int (s + 1), ls + 1)) (py_range spine) @
          map (\<lambda>f. (spine + f + 1, ''h'' @ str_int (ls * fanout + f + 1), 0)) (py_range fanout))"
proof (intro exI [of _ "fabric spine leaf fanout"] conjI allI impI)
  show "LeafAndSpine spine leaf fanout = Inr (fabric spine leaf fanout)"
    by (rule LeafAndSpine_closed)
  show "length (topo_switches (fabric spine leaf fanout)) = nat (spine + leaf)"
    using assms by (simp add: length_topo_switches_fabric nat_add_distrib)
  show "distinct (topo_switches (fabric spine leaf fanout))"
    by (rule distinct_topo_switches_fabric)
  show "length (topo_hosts (fabric spine leaf fanout)) = nat (leaf * fanout)"
    using assms by (simp add: length_topo_hosts_fabric nat_mult_distrib)
  show "distinct (topo_hosts (fabric spine leaf fanout))"
    by (rule distinct_topo_hosts_fabric)
next
  fix ls :: int
  assume "0 \<le> ls \<and> ls < leaf"
  then have "topo_ports (fabric spine leaf fanout) (''s'' @ str_int (spine + ls + 1)) =
     map (\<lambda>s. (s + 1, ''s'' @ str_int (s + 1), ls + 1)) (py_range spine) @
     map (\<lambda>f. (int (nat spine) + f + 1, ''h'' @ str_int (ls * fanout + f + 1), 0)) (py_range fanout)"
    by (intro topo_ports_leaf) simp_all
  moreover have "int (nat spine) = spine" using assms by simp
  ultimately show "topo_ports (fabric spine leaf fanout) (''s'' @ str_int (spine + ls + 1)) =
          map (\<lambda>s. (s + 1, ''s'' @ str_int (s + 1), ls + 1)) (py_range spine) @
          map (\<lambda>f. (spine + f + 1, ''h'' @ str_int (ls * fanout + f + 1), 0)) (py_range fanout)"
    by (simp only:)
qed

lemma str_int_small:
  "str_int 0 = ''0''" "str_int 1 = ''1''" "str_int 2 = ''2''" "str_int 3 = ''3''" "str_int 4 = ''4''"
  by code_simp+

lemma py_range_small: "py_range 1 = [0]" "py_range 2 = [0, 1]"
  by code_simp+

theorem LeafAndSpine_shape_witness:
  "\<exists>t. LeafAndSpine 2 2 2 = Inr t \<and>
     length (topo_switches t) = 4 \<and> length (topo_hosts t) = 4 \<and>
     topo_ports t ''s3'' = [(1, ''s1'', 1), (2, ''s2'', 1), (3, ''h1'', 0), (4, ''h2'', 0)] \<and>
     topo_ports t ''s4'' = [(1, ''s1'', 2), (2, ''s2'', 2), (3, ''h3'', 0), (4, ''h4'', 0)]"
proof -
  from LeafAndSpine_shape [of 2 2 2] obtain t where t: "LeafAndSpine 2 2 2 = Inr t"
    "length (topo_switches t) = nat (2 + 2)" "length (topo_hosts t) = nat (2 * 2)"
    and ports: "\<And>ls. 0 \<le> ls \<and> ls < 2 \<Longrightarrow>
        topo_ports t (''s'' @ str_int (2 + ls + 1)) =
          map (\<lambda>s. (s + 1, ''s'' @ str_int (s + 1), ls + 1)) (py_range 2) @
          map (\<lambda>f. (2 + f + 1, ''h'' @ str_int (ls * 2 + f + 1), 0)) (py_range 2)"
    by auto
  from ports [of 0] ports [of 1] t show ?thesis
    by (intro exI [of _ t]) (simp add: str_int_small py_range_small)
qed

text \<open>
  C7, as amended. \<open>LeafAndSpine\<close> checks none of its sizing parameters: for all integers
  it returns a graph, never an error, with one switch per index of \<open>range(spine)\<close>
  and of \<open>range(leaf)\<close> and one host per pair of indices of \<open>range(leaf)\<close> and
  \<open>range(fanout)\<close> (none for a parameter that is zero or negative).
\<close>

theorem LeafAndSpine_no_validation:
  "\<exists>t. LeafAndSpine spine leaf fanout = Inr t \<and>
     length (topo_switches t) = nat spine + nat leaf \<and>
     length (topo_hosts t) = nat leaf * nat fanout"
  using LeafAndSpine_closed length_topo_switches_fabric length_topo_hosts_fabric by blast

text \<open>
  C7 as stated fails: with \<open>leaf = 255\<close>, with \<open>fanout = 255\<close> and with \<open>spine = 0\<close> the
  constructor returns a graph.
\<close>

theorem LeafAndSpine_invalid_size_counterexample:
  "(case LeafAndSpine 1 255 1 of Inl e \<Rightarrow> None | Inr t \<Rightarrow> Some (length (topo_switches t), length (topo_hosts t)))
     = Some (256, 255) \<and>
   (case LeafAndSpine 1 1 255 of Inl e \<Rightarrow> None | Inr t \<Rightarrow> Some (length (topo_switches t), length (topo_hosts t)))
     = Some (2, 255) \<and>
   (case LeafAndSpine 0 1 1 of Inl e \<Rightarrow> None | Inr t \<Rightarrow> Some (length (topo_switches t), length (topo_hosts t)))
     = Some (1, 1)"
  by (simp add: LeafAndSpine_closed length_topo_switches_fabric length_topo_hosts_fabric)


section \<open>Unicast configuration of the built network\<close>


lemma foldM_product:
  "foldM (\<lambda>x. foldM (g x) ys) xs s = foldM (\<lambda>(x, y). g x y) (List.product xs ys) s"
proof (induction xs arbitrary: s)
  case Nil
  show ?case by simp
next
  case (Cons x xs)
  have inner: "foldM (\<lambda>(x, y). g x y) (map (Pair x) ys) s = foldM (g x) ys s" for s
    by (induction ys arbitrary: s) (simp_all split: sum.splits)
  show ?case
    by (simp add: foldM_append inner Cons.IH split: sum.splits)
qed

lemma net_get_name: "net_get net nm = Inr x \<Longrightarrow> name x = nm"
  by (auto simp: net_get_def find_Some_iff split: option.splits)

lemma net_get_ok:
  "nm \<in> name ` (set (hosts net) \<union> set (switches net)) \<Longrightarrow> \<exists>x. net_get net nm = Inr x"
  by (cases "find (\<lambda>x. name x = nm) (hosts net @ switches net)")
     (auto simp: net_get_def find_None_iff)

lemma setMAC_alt:
  "setMAC host mac net =
     net\<lparr>hosts := map (set_mac (name host) mac) (hosts net),
         switches := map (set_mac (name host) mac) (switches net)\<rparr>"
  by (simp add: setMAC_def set_mac_def [abs_def])

lemma name_set_mac [simp]: "name (set_mac nm mac x) = name x"
  by (simp add: set_mac_def)

lemma configUnicast_host_alt:
  "configUnicast_host spine fanout ls (''s'' @ str_int (spine + ls + 1)) f (net, log) =
     (case net_get net (''h'' @ str_int (ls * fanout + f + 1)) of
        Inl e \<Rightarrow> Inl e
      | Inr host \<Rightarrow> Inr (setMAC host (host_mac ls f) net, log @ host_calls spine ls f))"
  by (simp add: configUnicast_host_def Let_def fold_call call_def host_calls_def flow_call_def
      exact_rule_def multipath_rule_def split: sum.splits)

lemma unicast_loop:
  assumes "\<And>ls f. (ls, f) \<in> set ps \<Longrightarrow>
     ''h'' @ str_int (ls * fanout + f + 1) \<in> name ` (set (hosts net) \<union> set (switches net))"
  shows "foldM (\<lambda>(ls, f). configUnicast_host spine fanout ls (''s'' @ str_int (spine + ls + 1)) f) ps (net, log)
     = Inr (unicast_net fanout ps net, log @ concat (map (\<lambda>(ls, f). host_calls spine ls f) ps))"
  using assms
proof (induction ps arbitrary: net log)
  case Nil
  show ?case by (simp add: unicast_net_def)
next
  case (Cons p ps)
  obtain ls f where p: "p = (ls, f)" by (cases p)
  let ?hn = "''h'' @ str_int (ls * fanout + f + 1)"
  have "?hn \<in> name ` (set (hosts net) \<union> set (switches net))"
    using Cons.prems [of ls f] by (simp add: p)
  then obtain host where host: "net_get net ?hn = Inr host" using net_get_ok by blast
  then have nm: "name host = ?hn" by (rule net_get_name)
  let ?net1 = "setMAC host (host_mac ls f) net"
  have net1: "?net1 = net\<lparr>hosts := map (unicast_mac fanout p) (hosts net),
         switches := map (unicast_mac fanout p) (switches net)\<rparr>"
    unfolding setMAC_alt nm by (simp add: unicast_mac_def p)
  have names: "name ` (set (hosts ?net1) \<union> set (switches ?net1)) = name ` (set (hosts net) \<union> set (switches net))"
    unfolding setMAC_alt by (simp add: image_Un image_image)
  have IH: "foldM (\<lambda>(ls, f). configUnicast_host spine fanout ls (''s'' @ str_int (spine + ls + 1)) f) ps
        (?net1, log @ host_calls spine ls f)
     = Inr (unicast_net fanout ps ?net1, (log @ host_calls spine ls f) @ concat (map (\<lambda>(ls, f). host_calls spine ls f) ps))"
    by (rule Cons.IH) (use Cons.prems names in auto)
  have "unicast_net fanout ps ?net1 = unicast_net fanout (p # ps) net"
    unfolding net1 by (simp add: unicast_net_def comp_def)
  with IH show ?case
    unfolding p foldM.simps prod.case configUnicast_host_alt host by simp
qed



lemma mem_host_pairs [simp]:
  "(ls, f) \<in> set (host_pairs leaf fanout) \<longleftrightarrow> 0 \<le> ls \<and> ls < leaf \<and> 0 \<le> f \<and> f < fanout"
  by (auto simp: host_pairs_def)

lemma distinct_host_pairs [simp]: "distinct (host_pairs leaf fanout)"
  by (simp add: host_pairs_def distinct_product)

lemma fabric_host_nodes:
  "filter (\<lambda>(nm, opts). \<not> isSwitch opts) (g_node (fabric spine leaf fanout)) =
     map (\<lambda>(ls, f). (''h'' @ str_int (ls * fanout + f + 1), host_opts ls f)) (host_pairs leaf fanout)"
proof -
  let ?P = "\<lambda>(nm :: string, opts). \<not> isSwitch opts"
  have sp: "filter ?P (spine_nodes spine) = []"
    unfolding spine_nodes_def by (rule filter_map_none) (simp add: sw_opts_def)
  have lf: "filter ?P (leaf_nodes spine fanout ls) =
      map (\<lambda>f. (''h'' @ str_int (ls * fanout + f + 1), host_opts ls f)) (py_range fanout)" for ls
  proof -
    have "filter ?P (map (\<lambda>f. (''h'' @ str_int (ls * fanout + f + 1), host_opts ls f)) (py_range fanout))
        = map (\<lambda>f. (''h'' @ str_int (ls * fanout + f + 1), host_opts ls f)) (py_range fanout)"
      by (rule filter_map_all) (simp add: host_opts_def)
    then show ?thesis unfolding leaf_nodes_def by (simp add: sw_opts_def)
  qed
  have "filter ?P (g_node (fabric spine leaf fanout)) =
      concat (map (\<lambda>ls. map (\<lambda>f. (''h'' @ str_int (ls * fanout + f + 1), host_opts ls f)) (py_range fanout))
         (py_range leaf))"
    unfolding fabric_def by (simp only: Topo.simps filter_append sp filter_concat_map lf append_Nil)
  then show ?thesis
    unfolding host_pairs_def concat_map_product .
qed

lemma fabric_switch_nodes:
  "filter (\<lambda>(nm, opts). isSwitch opts) (g_node (fabric spine leaf fanout)) =
     map (\<lambda>nm. (nm, sw_opts)) (topo_switches (fabric spine leaf fanout))"
proof -
  have "\<forall>x \<in> set (filter (\<lambda>(nm, opts). isSwitch opts) (g_node (fabric spine leaf fanout))). snd x = sw_opts"
    by (auto simp: fabric_def spine_nodes_def leaf_nodes_def host_opts_def)
  then have "map (\<lambda>x. (fst x, sw_opts)) (filter (\<lambda>(nm, opts). isSwitch opts) (g_node (fabric spine leaf fanout)))
      = filter (\<lambda>(nm, opts). isSwitch opts) (g_node (fabric spine leaf fanout))"
  proof (intro map_idI)
    fix x assume "x \<in> set (filter (\<lambda>(nm, opts). isSwitch opts) (g_node (fabric spine leaf fanout)))"
    with \<open>\<forall>x \<in> set (filter (\<lambda>(nm, opts). isSwitch opts) (g_node (fabric spine leaf fanout))). snd x = sw_opts\<close>
    have "snd x = sw_opts" by blast
    then show "(fst x, sw_opts) = x" by (simp add: prod_eq_iff)
  qed
  then show ?thesis unfolding topo_switches_def by (simp add: comp_def)
qed

lemma hosts_build_fabric:
  "hosts (Mininet_build (fabric spine leaf fanout)) = map (fabric_host fanout) (host_pairs leaf fanout)"
  unfolding Mininet_build_def fabric_host_nodes
  by (simp add: comp_def fabric_host_def host_opts_def case_prod_beta)

lemma switches_build_fabric:
  "switches (Mininet_build (fabric spine leaf fanout)) =
     map (\<lambda>nm. \<lparr>name = nm, dpid = defaultDpid nm, IP = None, MAC = None\<rparr>)
       (topo_switches (fabric spine leaf fanout))"
  unfolding Mininet_build_def fabric_switch_nodes by (simp add: comp_def)

lemma switch_name_hd:
  "nm \<in> set (topo_switches (fabric spine leaf fanout)) \<Longrightarrow> hd nm = CHR ''s''"
  unfolding topo_switches_fabric by auto

lemma fold_unicast_mac_other:
  "hd (name x) \<noteq> CHR ''h'' \<Longrightarrow> fold (unicast_mac fanout) ps x = x"
proof (induction ps)
  case Nil
  show ?case by simp
next
  case (Cons p ps)
  obtain ls f where p: "p = (ls, f)" by (cases p)
  from Cons.prems have "unicast_mac fanout p x = x"
    by (auto simp: unicast_mac_def set_mac_def p)
  with Cons show ?case by simp
qed

lemma fold_unicast_mac_host:
  assumes "name x = ''h'' @ str_int (ls * fanout + f + 1)"
    and "\<And>ls' f'. (ls', f') \<in> set ps \<Longrightarrow> ls' * fanout + f' = ls * fanout + f \<Longrightarrow> ls' = ls \<and> f' = f"
  shows "fold (unicast_mac fanout) ps x =
     (if (ls, f) \<in> set ps then x\<lparr>MAC := Some (host_mac ls f)\<rparr> else x)"
  using assms
proof (induction ps arbitrary: x)
  case Nil
  show ?case by simp
next
  case (Cons p ps)
  have inj: "a = ls \<and> b = f" if "(a, b) \<in> set ps" "a * fanout + b = ls * fanout + f" for a b
    using Cons.prems(2) [of a b] that by simp
  obtain ls' f' where p: "p = (ls', f')" by (cases p)
  show ?case
  proof (cases "p = (ls, f)")
    case True
    let ?x1 = "x\<lparr>MAC := Some (host_mac ls f)\<rparr>"
    have step: "unicast_mac fanout p x = ?x1"
      using Cons.prems(1) by (simp add: unicast_mac_def set_mac_def True)
    have "name ?x1 = ''h'' @ str_int (ls * fanout + f + 1)" using Cons.prems(1) by simp
    from Cons.IH [OF this inj]
    have "fold (unicast_mac fanout) ps ?x1 = ?x1" by simp
    with step True show ?thesis by simp
  next
    case False
    have "ls' * fanout + f' \<noteq> ls * fanout + f"
      using Cons.prems(2) [of ls' f'] False p by auto
    then have step: "unicast_mac fanout p x = x"
      using Cons.prems(1) by (simp add: unicast_mac_def set_mac_def p)
    from Cons.IH [OF Cons.prems(1) inj] False step show ?thesis by auto
  qed
qed

lemma unicast_net_build:
  "unicast_net fanout (host_pairs leaf fanout) (Mininet_build (fabric spine leaf fanout)) =
     (Mininet_build (fabric spine leaf fanout))
       \<lparr>hosts := map (configured_host fanout) (host_pairs leaf fanout)\<rparr>"
proof -
  let ?net = "Mininet_build (fabric spine leaf fanout)"
  let ?ps = "host_pairs leaf fanout"
  have sw: "map (fold (unicast_mac fanout) ?ps) (switches ?net) = switches ?net"
  proof (rule map_idI)
    fix x assume "x \<in> set (switches ?net)"
    then have "hd (name x) = CHR ''s''"
      unfolding switches_build_fabric using switch_name_hd by auto
    then show "fold (unicast_mac fanout) ?ps x = x"
      by (intro fold_unicast_mac_other) simp
  qed
  have hs: "map (fold (unicast_mac fanout) ?ps) (hosts ?net) = map (configured_host fanout) ?ps"
    unfolding hosts_build_fabric map_map
  proof (rule map_cong [OF refl])
    fix p assume p: "p \<in> set ?ps"
    obtain ls f where pq: "p = (ls, f)" by (cases p)
    have "fold (unicast_mac fanout) ?ps (fabric_host fanout (ls, f)) =
       (if (ls, f) \<in> set ?ps then (fabric_host fanout (ls, f))\<lparr>MAC := Some (host_mac ls f)\<rparr>
        else fabric_host fanout (ls, f))"
    proof (rule fold_unicast_mac_host)
      show "name (fabric_host fanout (ls, f)) = ''h'' @ str_int (ls * fanout + f + 1)"
        by (simp add: fabric_host_def)
    next
      fix ls' f'
      assume "(ls', f') \<in> set ?ps" "ls' * fanout + f' = ls * fanout + f"
      with p show "ls' = ls \<and> f' = f"
        unfolding pq by (intro host_index_inj [of f' fanout f ls' ls]) simp_all
    qed
    with p show "(fold (unicast_mac fanout) ?ps \<circ> fabric_host fanout) p = configured_host fanout p"
      unfolding pq by (simp add: fabric_host_def configured_host_def)
  qed
  show ?thesis unfolding unicast_net_def sw hs by simp
qed

lemma config_unicast_closed:
  "config_unicast spine leaf fanout =
     Inr ((Mininet_build (fabric spine leaf fanout))\<lparr>hosts := map (configured_host fanout) (host_pairs leaf fanout)\<rparr>,
          concat (map (\<lambda>(ls, f). host_calls spine ls f) (host_pairs leaf fanout)))"
proof -
  let ?net = "Mininet_build (fabric spine leaf fanout)"
  have "configUnicast ?net spine leaf fanout =
      foldM (\<lambda>(ls, f). configUnicast_host spine fanout ls (''s'' @ str_int (spine + ls + 1)) f)
        (host_pairs leaf fanout) (?net, [])"
    unfolding configUnicast_def Let_def host_pairs_def by (rule foldM_product)
  also have "\<dots> = Inr (unicast_net fanout (host_pairs leaf fanout) ?net,
       [] @ concat (map (\<lambda>(ls, f). host_calls spine ls f) (host_pairs leaf fanout)))"
  proof (rule unicast_loop)
    fix ls f assume "(ls, f) \<in> set (host_pairs leaf fanout)"
    then have "fabric_host fanout (ls, f) \<in> set (hosts ?net)"
      unfolding hosts_build_fabric set_map by (rule imageI)
    then have "name (fabric_host fanout (ls, f)) \<in> name ` (set (hosts ?net) \<union> set (switches ?net))"
      by blast
    then show "''h'' @ str_int (ls * fanout + f + 1) \<in> name ` (set (hosts ?net) \<union> set (switches ?net))"
      by (simp add: fabric_host_def)
  qed
  finally show ?thesis
    unfolding config_unicast_def LeafAndSpine_closed unicast_net_build by simp
qed


section \<open>The address encodings are injective\<close>


lemma sep_split:
  "c \<notin> set xs \<Longrightarrow> c \<notin> set xs' \<Longrightarrow> xs @ c # ys = xs' @ c # ys' \<Longrightarrow> xs = xs' \<and> ys = ys'"
proof (induction xs arbitrary: xs')
  case Nil
  then show ?case by (cases xs') auto
next
  case (Cons a xs)
  then show ?case by (cases xs') auto
qed

lemma digit_char_0: "digit_char 0 = CHR ''0''"
  by (simp add: digit_char_def hexdigits_def)

lemma to_base_no_leading_zero:
  assumes b: "2 \<le> b" "b \<le> 16"
  shows "0 < n \<Longrightarrow> hd (to_base b n) \<noteq> CHR ''0''"
proof (induction n rule: less_induct)
  case (less n)
  show ?case
  proof (cases "n < b")
    case True
    then have "n < 16" using b by simp
    with less.prems digit_char_inj [of n 0] have "digit_char n \<noteq> digit_char 0" by auto
    with True show ?thesis by (simp add: to_base_small digit_char_0)
  next
    case False
    then have step: "to_base b n = to_base b (n div b) @ [digit_char (n mod b)]"
      using b by (simp add: to_base_big)
    have "n div b < n" "0 < n div b" using False b by (simp_all add: not_less div_greater_zero_iff)
    then have "hd (to_base b (n div b)) \<noteq> CHR ''0''" by (intro less.IH)
    then show ?thesis unfolding step by (simp add: to_base_not_Nil)
  qed
qed

lemma to_base_length_1: "to_base b n = [digit_char n] \<or> 2 \<le> length (to_base b n)"
proof (cases "n < b \<or> b < 2")
  case True
  then show ?thesis by (subst to_base.simps) simp
next
  case False
  then have "2 \<le> length (to_base b n)" by (intro to_base_length_big) simp_all
  then show ?thesis ..
qed

lemma format_02x_nonneg:
  "0 \<le> i \<Longrightarrow> format_02x i =
     (if length (to_base 16 (nat i)) < 2 then CHR ''0'' # to_base 16 (nat i) else to_base 16 (nat i))"
  by (simp add: format_02x_def Let_def)

lemma format_02x_inj:
  assumes "0 \<le> a" "0 \<le> b" "format_02x a = format_02x b"
  shows "a = b"
proof -
  let ?s = "to_base 16 (nat a)" and ?t = "to_base 16 (nat b)"
  have lead: "to_base 16 n \<noteq> CHR ''0'' # xs" if "2 \<le> length (to_base 16 n)" for n xs
  proof
    assume eq: "to_base 16 n = CHR ''0'' # xs"
    have "n \<noteq> 0"
    proof
      assume "n = 0"
      then have "to_base 16 n = [digit_char 0]" by (simp add: to_base_small)
      with that show False by simp
    qed
    then have "0 < n" by simp
    then have "hd (to_base 16 n) \<noteq> CHR ''0''" by (intro to_base_no_leading_zero) simp_all
    with eq show False by simp
  qed
  have "?s = ?t"
  proof (cases "length ?s < 2")
    case s: True
    show ?thesis
    proof (cases "length ?t < 2")
      case True
      with s assms show ?thesis by (simp add: format_02x_nonneg)
    next
      case False
      with s assms have "?t = CHR ''0'' # ?s" by (simp add: format_02x_nonneg)
      moreover from False have "2 \<le> length ?t" by simp
      then have "?t \<noteq> CHR ''0'' # ?s" by (rule lead)
      ultimately show ?thesis by blast
    qed
  next
    case s: False
    show ?thesis
    proof (cases "length ?t < 2")
      case True
      with s assms have "?s = CHR ''0'' # ?t" by (simp add: format_02x_nonneg)
      moreover from s have "2 \<le> length ?s" by simp
      then have "?s \<noteq> CHR ''0'' # ?t" by (rule lead)
      ultimately show ?thesis by blast
    next
      case False
      with s assms show ?thesis by (simp add: format_02x_nonneg)
    qed
  qed
  then have "nat a = nat b" by (rule to_base_inj [rotated 2]) simp_all
  with assms show ?thesis by simp
qed

lemma format_02x_chars: "0 \<le> i \<Longrightarrow> set (format_02x i) \<subseteq> set hexdigits"
  using to_base_set [of 16 "nat i"] by (auto simp: format_02x_nonneg hexdigits_def)

lemma format_02x_two:
  assumes "0 \<le> i" "i < 256"
  shows "format_02x i = [digit_char (nat i div 16), digit_char (nat i mod 16)]"
proof (cases "nat i < 16")
  case True
  then show ?thesis using assms by (simp add: format_02x_nonneg to_base_small digit_char_0)
next
  case False
  then have "to_base 16 (nat i) = to_base 16 (nat i div 16) @ [digit_char (nat i mod 16)]"
    by (intro to_base_big) simp_all
  moreover have "nat i div 16 < 16" using assms by simp
  ultimately have "to_base 16 (nat i) = [digit_char (nat i div 16), digit_char (nat i mod 16)]"
    by (simp add: to_base_small)
  then show ?thesis using assms by (simp add: format_02x_nonneg)
qed

lemma str_int_chars: "set (str_int i) \<subseteq> insert CHR ''-'' (set hexdigits)"
  using to_base_set [of 10] by (auto simp: str_int_def)

lemma host_mac_inj:
  assumes "0 \<le> ls" "0 \<le> f" "0 \<le> ls'" "0 \<le> f'" "host_mac ls f = host_mac ls' f'"
  shows "ls = ls' \<and> f = f'"
proof -
  have colon: "CHR '':'' \<notin> set (format_02x i)" if "0 \<le> i" for i
    using format_02x_chars [OF that] by (auto simp: hexdigits_def)
  from assms(5) have "format_02x ls @ CHR '':'' # format_02x (f + 1)
      = format_02x ls' @ CHR '':'' # format_02x (f' + 1)"
    by (simp add: host_mac_def)
  with colon [OF assms(1)] colon [OF assms(3)]
  have "format_02x ls = format_02x ls' \<and> format_02x (f + 1) = format_02x (f' + 1)"
    by (intro sep_split)
  with assms format_02x_inj [of ls ls'] format_02x_inj [of "f + 1" "f' + 1"]
  show ?thesis by simp
qed

lemma host_ip_inj:
  assumes "''10.0.'' @ str_int ls @ ''.'' @ str_int (f + 1) @ ''/16''
         = ''10.0.'' @ str_int ls' @ ''.'' @ str_int (f' + 1) @ ''/16''"
  shows "ls = ls' \<and> f = f'"
proof -
  have dot: "CHR ''.'' \<notin> set (str_int i)" for i
    using str_int_chars [of i] by (auto simp: hexdigits_def)
  from assms have "str_int ls @ CHR ''.'' # (str_int (f + 1) @ ''/16'')
      = str_int ls' @ CHR ''.'' # (str_int (f' + 1) @ ''/16'')"
    by simp
  with dot [of ls] dot [of ls']
  have "str_int ls = str_int ls' \<and> str_int (f + 1) @ ''/16'' = str_int (f' + 1) @ ''/16''"
    by (intro sep_split)
  then show ?thesis by simp
qed


section \<open>The calls of the unicast configuration, switch by switch\<close>


lemma concat_map_product2:
  "concat (map k (List.product xs ys)) = concat (map (\<lambda>x. concat (map (\<lambda>y. k (x, y)) ys)) xs)"
  by (induction xs) (simp_all add: comp_def)

lemma calls_to_flow_call:
  "calls_to sw [flow_call sw' rule] = (if sw' = sw then [flow_call sw' rule] else [])"
  by (simp add: calls_to_def flow_call_def)

lemma calls_to_Cons_flow:
  "calls_to sw (flow_call sw' rule # cs) = (if sw' = sw then [flow_call sw' rule] else []) @ calls_to sw cs"
  by (simp add: calls_to_def flow_call_def)

lemma calls_to_Nil [simp]: "calls_to sw [] = []"
  by (simp add: calls_to_def)

lemma calls_to_map_flow:
  "calls_to sw (map (\<lambda>s. flow_call (g s) (r s)) xs) =
     concat (map (\<lambda>s. if g s = sw then [flow_call (g s) (r s)] else []) xs)"
  by (induction xs) (simp_all add: calls_to_Cons_flow)

lemma calls_to_host_calls_leaf:
  assumes "0 \<le> ls0"
  shows "calls_to (''s'' @ str_int (spine + ls0 + 1)) (host_calls spine ls f) =
     (if ls = ls0 then leaf_calls spine ls0 f else [])"
proof -
  let ?sw = "''s'' @ str_int (spine + ls0 + 1)"
  have "concat (map (\<lambda>s. if ''s'' @ str_int (s + 1) = ?sw
           then [flow_call (''s'' @ str_int (s + 1)) (exact_rule (host_mac ls f) (ls + 1))] else [])
         (py_range spine)) = []"
    using assms by (intro concat_map_none) auto
  then have sp: "calls_to ?sw (map (\<lambda>s. flow_call (''s'' @ str_int (s + 1)) (exact_rule (host_mac ls f) (ls + 1)))
         (py_range spine)) = []"
    by (simp only: calls_to_map_flow)
  show ?thesis
    unfolding host_calls_def calls_to_append sp
    by (simp add: calls_to_Cons_flow leaf_calls_def)
qed

lemma calls_to_host_calls_spine:
  assumes "0 \<le> s0" "s0 < spine" "0 \<le> ls"
  shows "calls_to (''s'' @ str_int (s0 + 1)) (host_calls spine ls f) =
     [flow_call (''s'' @ str_int (s0 + 1)) (exact_rule (host_mac ls f) (ls + 1))]"
proof -
  let ?sw = "''s'' @ str_int (s0 + 1)"
  let ?k = "\<lambda>s. if ''s'' @ str_int (s + 1) = ?sw
           then [flow_call (''s'' @ str_int (s + 1)) (exact_rule (host_mac ls f) (ls + 1))] else []"
  have "calls_to ?sw (map (\<lambda>s. flow_call (''s'' @ str_int (s + 1)) (exact_rule (host_mac ls f) (ls + 1)))
         (py_range spine)) = concat (map ?k (py_range spine))"
    by (rule calls_to_map_flow)
  also have "\<dots> = ?k s0"
    using assms by (intro concat_map_single) auto
  finally have sp: "calls_to ?sw (map (\<lambda>s. flow_call (''s'' @ str_int (s + 1)) (exact_rule (host_mac ls f) (ls + 1)))
         (py_range spine)) = [flow_call ?sw (exact_rule (host_mac ls f) (ls + 1))]"
    by simp
  have ne: "''s'' @ str_int (spine + ls + 1) \<noteq> ?sw" using assms by simp
  show ?thesis
    unfolding host_calls_def calls_to_append sp
    using ne by (simp add: calls_to_Cons_flow)
qed

lemma calls_to_unicast_leaf:
  assumes "0 \<le> ls" "ls < leaf"
  shows "calls_to (''s'' @ str_int (spine + ls + 1)) (unicast_log spine leaf fanout) =
     concat (map (leaf_calls spine ls) (py_range fanout))"
proof -
  let ?sw = "''s'' @ str_int (spine + ls + 1)"
  let ?k = "\<lambda>p. calls_to ?sw (case p of (ls', f) \<Rightarrow> host_calls spine ls' f)"
  let ?h = "\<lambda>x. concat (map (\<lambda>y. ?k (x, y)) (py_range fanout))"
  have h: "?h x = (if x = ls then concat (map (leaf_calls spine ls) (py_range fanout)) else [])" for x
    unfolding prod.case calls_to_host_calls_leaf [OF assms(1)]
    by (cases "x = ls") (simp_all add: concat_map_none)
  have "calls_to ?sw (unicast_log spine leaf fanout) = concat (map ?k (host_pairs leaf fanout))"
    unfolding unicast_log_def by (rule calls_to_concat)
  also have "\<dots> = concat (map ?h (py_range leaf))"
    unfolding host_pairs_def by (rule concat_map_product2)
  also have "\<dots> = ?h ls"
  proof (rule concat_map_single)
    show "distinct (py_range leaf)" by simp
    show "ls \<in> set (py_range leaf)" using assms by simp
    show "?h y = []" if "y \<in> set (py_range leaf)" "y \<noteq> ls" for y
      unfolding h using that by simp
  qed
  finally show ?thesis unfolding h by simp
qed

lemma calls_to_unicast_spine:
  assumes "0 \<le> s" "s < spine"
  shows "calls_to (''s'' @ str_int (s + 1)) (unicast_log spine leaf fanout) =
     map (\<lambda>(ls, f). flow_call (''s'' @ str_int (s + 1)) (exact_rule (host_mac ls f) (ls + 1)))
       (host_pairs leaf fanout)"
proof -
  let ?sw = "''s'' @ str_int (s + 1)"
  let ?k = "\<lambda>p. calls_to ?sw (case p of (ls', f) \<Rightarrow> host_calls spine ls' f)"
  have k: "?k p = [case p of (ls, f) \<Rightarrow> flow_call ?sw (exact_rule (host_mac ls f) (ls + 1))]"
    if "p \<in> set (host_pairs leaf fanout)" for p
  proof -
    obtain ls f where p: "p = (ls, f)" by (cases p)
    with that have "0 \<le> ls" by simp
    from calls_to_host_calls_spine [OF assms this] show ?thesis unfolding p by simp
  qed
  have "calls_to ?sw (unicast_log spine leaf fanout) = concat (map ?k (host_pairs leaf fanout))"
    unfolding unicast_log_def by (rule calls_to_concat)
  also have "\<dots> = concat (map (\<lambda>p. [case p of (ls, f) \<Rightarrow> flow_call ?sw (exact_rule (host_mac ls f) (ls + 1))])
      (host_pairs leaf fanout))"
    by (intro arg_cong [where f = concat] map_cong refl k)
  finally show ?thesis by (simp add: concat_map_singleton)
qed

lemma config_unicast_log:
  "config_unicast spine leaf fanout =
     Inr ((Mininet_build (fabric spine leaf fanout))\<lparr>hosts := map (configured_host fanout) (host_pairs leaf fanout)\<rparr>,
          unicast_log spine leaf fanout)"
  unfolding unicast_log_def by (rule config_unicast_closed)

lemma slaves_of_alt:
  "slaves_of spine = ''1'' @ concat (map (\<lambda>x. '','' @ str_int x) (py_range2 2 (spine + 1)))"
proof -
  have f: "fold (\<lambda>x slaves. slaves @ '','' @ str_int x) xs acc = acc @ concat (map (\<lambda>x. '','' @ str_int x) xs)"
    for xs acc
    by (induction xs arbitrary: acc) simp_all
  have "\<not> 1 < spine \<Longrightarrow> py_range2 2 (spine + 1) = []"
    by (simp add: py_range2_def)
  then show ?thesis unfolding slaves_of_def f by auto
qed


section \<open>Host addresses\<close>


lemma host_pairs_small:
  "host_pairs 1 1 = [(0, 0)]" "host_pairs 2 2 = [(0, 0), (0, 1), (1, 0), (1, 1)]"
  by code_simp+

lemma host_mac_small:
  "host_mac 0 0 = ''00:04:00:00:00:01''" "host_mac 0 1 = ''00:04:00:00:00:02''"
  "host_mac 1 0 = ''00:04:00:00:01:01''" "host_mac 1 1 = ''00:04:00:00:01:02''"
  by code_simp+

lemma digit_char_small:
  "digit_char 0 = CHR ''0''" "digit_char 1 = CHR ''1''" "digit_char (Suc 0) = CHR ''1''"
  "digit_char 2 = CHR ''2''"
  by code_simp+

lemma slaves_of_small: "slaves_of 1 = ''1''" "slaves_of 2 = ''1,2''"
  by code_simp+

text \<open>
  C2. With \<open>leaf < 255\<close> and \<open>fanout < 255\<close>, after the fabric is built and
  \<open>configUnicast\<close> has run, the hosts of the network are, for every leaf index \<open>ls\<close> and
  host index \<open>f\<close>, the host \<open>h<ls * fanout + f + 1>\<close> with the address
  \<open>10.0.<ls>.<f + 1>/16\<close> given by the builder and the MAC address
  \<open>00:04:00:00:<ls>:<f + 1>\<close>, each of the two numbers written as two hexadecimal
  digits; and no two hosts have the same address or the same MAC address.
\<close>

theorem host_addresses:
  assumes "leaf < 255" "fanout < 255"
  shows "\<exists>net log. config_unicast spine leaf fanout = Inr (net, log) \<and>
     hosts net =
       map (\<lambda>(ls, f).
           \<lparr>name = ''h'' @ str_int (ls * fanout + f + 1), dpid = [],
            IP = Some (''10.0.'' @ str_int ls @ ''.'' @ str_int (f + 1) @ ''/16''),
            MAC = Some (''00:04:00:00:''
                    @ [digit_char (nat ls div 16), digit_char (nat ls mod 16)] @ '':''
                    @ [digit_char (nat (f + 1) div 16), digit_char (nat (f + 1) mod 16)])\<rparr>)
         (List.product (py_range leaf) (py_range fanout)) \<and>
     distinct (map IP (hosts net)) \<and> distinct (map MAC (hosts net))"
proof -
  let ?ps = "host_pairs leaf fanout"
  let ?net = "(Mininet_build (fabric spine leaf fanout))\<lparr>hosts := map (configured_host fanout) ?ps\<rparr>"
  have run: "config_unicast spine leaf fanout = Inr (?net, unicast_log spine leaf fanout)"
    by (rule config_unicast_log)
  have hs: "hosts ?net = map (configured_host fanout) ?ps" by simp
  have form: "configured_host fanout p =
      (case p of (ls, f) \<Rightarrow>
           \<lparr>name = ''h'' @ str_int (ls * fanout + f + 1), dpid = [],
            IP = Some (''10.0.'' @ str_int ls @ ''.'' @ str_int (f + 1) @ ''/16''),
            MAC = Some (''00:04:00:00:''
                    @ [digit_char (nat ls div 16), digit_char (nat ls mod 16)] @ '':''
                    @ [digit_char (nat (f + 1) div 16), digit_char (nat (f + 1) mod 16)])\<rparr>)"
    if "p \<in> set ?ps" for p
  proof -
    obtain ls f where p: "p = (ls, f)" by (cases p)
    from that assms have "0 \<le> ls" "ls < 256" "0 \<le> f + 1" "f + 1 < 256"
      unfolding p by simp_all
    then have "format_02x ls = [digit_char (nat ls div 16), digit_char (nat ls mod 16)]"
      "format_02x (f + 1) = [digit_char (nat (f + 1) div 16), digit_char (nat (f + 1) mod 16)]"
      by (simp_all only: format_02x_two)
    then show ?thesis unfolding p by (simp add: configured_host_def host_mac_def)
  qed
  have ip: "distinct (map IP (hosts ?net))"
  proof -
    have "inj_on (IP \<circ> configured_host fanout) (set ?ps)"
    proof (rule inj_onI)
      fix p q assume "p \<in> set ?ps" "q \<in> set ?ps"
        and eq: "(IP \<circ> configured_host fanout) p = (IP \<circ> configured_host fanout) q"
      obtain ls f where p: "p = (ls, f)" by (cases p)
      obtain ls' f' where q: "q = (ls', f')" by (cases q)
      from eq have "''10.0.'' @ str_int ls @ ''.'' @ str_int (f + 1) @ ''/16''
         = ''10.0.'' @ str_int ls' @ ''.'' @ str_int (f' + 1) @ ''/16''"
        unfolding p q by (simp add: configured_host_def)
      then have "ls = ls' \<and> f = f'" by (rule host_ip_inj)
      then show "p = q" unfolding p q by simp
    qed
    then show ?thesis unfolding hs map_map by (simp add: distinct_map)
  qed
  have mac: "distinct (map MAC (hosts ?net))"
  proof -
    have "inj_on (MAC \<circ> configured_host fanout) (set ?ps)"
    proof (rule inj_onI)
      fix p q assume pq: "p \<in> set ?ps" "q \<in> set ?ps"
        and eq: "(MAC \<circ> configured_host fanout) p = (MAC \<circ> configured_host fanout) q"
      obtain ls f where p: "p = (ls, f)" by (cases p)
      obtain ls' f' where q: "q = (ls', f')" by (cases q)
      from eq have "host_mac ls f = host_mac ls' f'"
        unfolding p q by (simp add: configured_host_def)
      moreover from pq have "0 \<le> ls" "0 \<le> f" "0 \<le> ls'" "0 \<le> f'" unfolding p q by simp_all
      ultimately have "ls = ls' \<and> f = f'" by (intro host_mac_inj)
      then show "p = q" unfolding p q by simp
    qed
    then show ?thesis unfolding hs map_map by (simp add: distinct_map)
  qed
  have "hosts ?net = map (\<lambda>(ls, f).
           \<lparr>name = ''h'' @ str_int (ls * fanout + f + 1), dpid = [],
            IP = Some (''10.0.'' @ str_int ls @ ''.'' @ str_int (f + 1) @ ''/16''),
            MAC = Some (''00:04:00:00:''
                    @ [digit_char (nat ls div 16), digit_char (nat ls mod 16)] @ '':''
                    @ [digit_char (nat (f + 1) div 16), digit_char (nat (f + 1) mod 16)])\<rparr>)
         (List.product (py_range leaf) (py_range fanout))"
    unfolding hs host_pairs_def [symmetric] by (rule map_cong [OF refl]) (rule form)
  with run ip mac show ?thesis by blast
qed

theorem host_addresses_witness:
  "\<exists>net log. config_unicast 2 2 2 = Inr (net, log) \<and>
     hosts net =
       [\<lparr>name = ''h1'', dpid = [], IP = Some ''10.0.0.1/16'', MAC = Some ''00:04:00:00:00:01''\<rparr>,
        \<lparr>name = ''h2'', dpid = [], IP = Some ''10.0.0.2/16'', MAC = Some ''00:04:00:00:00:02''\<rparr>,
        \<lparr>name = ''h3'', dpid = [], IP = Some ''10.0.1.1/16'', MAC = Some ''00:04:00:00:01:01''\<rparr>,
        \<lparr>name = ''h4'', dpid = [], IP = Some ''10.0.1.2/16'', MAC = Some ''00:04:00:00:01:02''\<rparr>] \<and>
     distinct (map IP (hosts net)) \<and> distinct (map MAC (hosts net))"
proof -
  have "(2::int) < 255" by simp
  from host_addresses [OF this this, of 2] obtain net log where
    "config_unicast 2 2 2 = Inr (net, log)"
    "hosts net =
       map (\<lambda>(ls, f).
           \<lparr>name = ''h'' @ str_int (ls * 2 + f + 1), dpid = [],
            IP = Some (''10.0.'' @ str_int ls @ ''.'' @ str_int (f + 1) @ ''/16''),
            MAC = Some (''00:04:00:00:''
                    @ [digit_char (nat ls div 16), digit_char (nat ls mod 16)] @ '':''
                    @ [digit_char (nat (f + 1) div 16), digit_char (nat (f + 1) mod 16)])\<rparr>)
         (List.product (py_range 2) (py_range 2))"
    "distinct (map IP (hosts net))" "distinct (map MAC (hosts net))"
    by blast
  then show ?thesis
    by (intro exI [of _ net] exI [of _ log])
       (simp add: py_range_small str_int_small digit_char_small)
qed


section \<open>The multipath rule\<close>


text \<open>
  C4 as stated fails: for \<open>spine = 2\<close>, \<open>leaf = 2\<close>, \<open>fanout = 2\<close> the leaf switch \<open>s3\<close>
  is sent two exact-match rules and two multipath rules, not one.
\<close>

theorem multipath_once_counterexample:
  "(case config_unicast 2 2 2 of Inl e \<Rightarrow> None | Inr (net, log) \<Rightarrow> Some (calls_to ''s3'' log)) =
     Some [[''ovs-ofctl'', ''add-flow'', ''s3'', ''dl_dst=00:04:00:00:00:01 priority=500 actions=output:3''],
           [''ovs-ofctl'', ''add-flow'', ''s3'', ''priority=300 actions=bundle(symmetric_l4,1,hrw,ofport,slaves:1,2''],
           [''ovs-ofctl'', ''add-flow'', ''s3'', ''dl_dst=00:04:00:00:00:02 priority=500 actions=output:4''],
           [''ovs-ofctl'', ''add-flow'', ''s3'', ''priority=300 actions=bundle(symmetric_l4,1,hrw,ofport,slaves:1,2'']]"
proof -
  have "calls_to (''s'' @ str_int (2 + 0 + 1)) (unicast_log 2 2 2) =
     concat (map (leaf_calls 2 0) (py_range 2))"
    by (rule calls_to_unicast_leaf) simp_all
  then show ?thesis
    by (simp add: config_unicast_log str_int_small py_range_small leaf_calls_def flow_call_def
        exact_rule_def multipath_rule_def host_mac_small slaves_of_small)
qed

lemma multipath_copies:
  "filter (\<lambda>c. take 12 (c ! 3) = ''priority=300'') (concat (map (leaf_calls spine ls) xs)) =
     replicate (length xs) (flow_call (''s'' @ str_int (spine + ls + 1)) (multipath_rule spine ls))"
proof -
  have one: "filter (\<lambda>c. take 12 (c ! 3) = ''priority=300'') (leaf_calls spine ls f) =
      [flow_call (''s'' @ str_int (spine + ls + 1)) (multipath_rule spine ls)]" for f
    by (simp add: leaf_calls_def flow_call_def exact_rule_def multipath_rule_def)
  show ?thesis
    unfolding filter_concat_map one
    by (simp add: concat_map_singleton map_replicate_const)
qed

text \<open>
  C4, as amended. The multipath rule is issued inside the loop over the hosts of a
  leaf: the calls \<open>configUnicast\<close> addresses to the leaf switch of index \<open>ls\<close> are, for
  each host index \<open>f\<close> of \<open>range(fanout)\<close> in turn, the exact-match rule of that host
  followed by the multipath rule at priority 300, which is the same for every host
  of the leaf: the rules at priority 300 sent to the leaf are \<open>fanout\<close> copies of one
  rule. Its path set lists port 1 and then the ports of \<open>range(2, spine + 1)\<close>;
  for \<open>spine = 1\<close> it is the single port 1, and the rule is still issued.
\<close>

theorem multipath_per_host:
  "\<exists>net log. config_unicast spine leaf fanout = Inr (net, log) \<and>
     (\<forall>ls. 0 \<le> ls \<and> ls < leaf \<longrightarrow>
        calls_to (''s'' @ str_int (spine + ls + 1)) log =
          concat (map (\<lambda>f.
              [[''ovs-ofctl'', ''add-flow'', ''s'' @ str_int (spine + ls + 1),
                ''dl_dst='' @ host_mac ls f @ '' priority=500 actions=output:'' @ str_int (f + 1 + spine)],
               [''ovs-ofctl'', ''add-flow'', ''s'' @ str_int (spine + ls + 1),
                ''priority=300 actions=bundle(symmetric_l4,'' @ str_int (ls + 1)
                  @ '',hrw,ofport,slaves:'' @ slaves_of spine]])
            (py_range fanout)) \<and>
        filter (\<lambda>c. take 12 (c ! 3) = ''priority=300'') (calls_to (''s'' @ str_int (spine + ls + 1)) log) =
          replicate (nat fanout)
            [''ovs-ofctl'', ''add-flow'', ''s'' @ str_int (spine + ls + 1),
             ''priority=300 actions=bundle(symmetric_l4,'' @ str_int (ls + 1)
               @ '',hrw,ofport,slaves:'' @ slaves_of spine]) \<and>
     slaves_of spine = ''1'' @ concat (map (\<lambda>x. '','' @ str_int x) (py_range2 2 (spine + 1))) \<and>
     slaves_of 1 = ''1''"
proof (intro exI conjI allI impI)
  show "config_unicast spine leaf fanout =
     Inr ((Mininet_build (fabric spine leaf fanout))\<lparr>hosts := map (configured_host fanout) (host_pairs leaf fanout)\<rparr>,
          unicast_log spine leaf fanout)"
    by (rule config_unicast_log)
next
  fix ls :: int
  assume "0 \<le> ls \<and> ls < leaf"
  then have leaf: "calls_to (''s'' @ str_int (spine + ls + 1)) (unicast_log spine leaf fanout) =
     concat (map (leaf_calls spine ls) (py_range fanout))"
    by (intro calls_to_unicast_leaf) simp_all
  show "filter (\<lambda>c. take 12 (c ! 3) = ''priority=300'')
          (calls_to (''s'' @ str_int (spine + ls + 1)) (unicast_log spine leaf fanout)) =
          replicate (nat fanout)
            [''ovs-ofctl'', ''add-flow'', ''s'' @ str_int (spine + ls + 1),
             ''priority=300 actions=bundle(symmetric_l4,'' @ str_int (ls + 1)
               @ '',hrw,ofport,slaves:'' @ slaves_of spine]"
    unfolding leaf multipath_copies
    by (simp add: flow_call_def multipath_rule_def)
  from leaf show "calls_to (''s'' @ str_int (spine + ls + 1)) (unicast_log spine leaf fanout) =
          concat (map (\<lambda>f.
              [[''ovs-ofctl'', ''add-flow'', ''s'' @ str_int (spine + ls + 1),
                ''dl_dst='' @ host_mac ls f @ '' priority=500 actions=output:'' @ str_int (f + 1 + spine)],
               [''ovs-ofctl'', ''add-flow'', ''s'' @ str_int (spine + ls + 1),
                ''priority=300 actions=bundle(symmetric_l4,'' @ str_int (ls + 1)
                  @ '',hrw,ofport,slaves:'' @ slaves_of spine]])
            (py_range fanout))"
    by (simp add: leaf_calls_def [abs_def] flow_call_def exact_rule_def multipath_rule_def)
next
  show "slaves_of spine = ''1'' @ concat (map (\<lambda>x. '','' @ str_int x) (py_range2 2 (spine + 1)))"
    by (rule slaves_of_alt)
next
  show "slaves_of 1 = ''1''" by (rule slaves_of_small)
qed

theorem multipath_per_host_witness:
  "\<exists>net log. config_unicast 1 1 2 = Inr (net, log) \<and>
     calls_to ''s2'' log =
       [[''ovs-ofctl'', ''add-flow'', ''s2'', ''dl_dst=00:04:00:00:00:01 priority=500 actions=output:2''],
        [''ovs-ofctl'', ''add-flow'', ''s2'', ''priority=300 actions=bundle(symmetric_l4,1,hrw,ofport,slaves:1''],
        [''ovs-ofctl'', ''add-flow'', ''s2'', ''dl_dst=00:04:00:00:00:02 priority=500 actions=output:3''],
        [''ovs-ofctl'', ''add-flow'', ''s2'', ''priority=300 actions=bundle(symmetric_l4,1,hrw,ofport,slaves:1'']]"
proof -
  from multipath_per_host [of 1 1 2] obtain net log where run: "config_unicast 1 1 2 = Inr (net, log)"
    and leaf: "\<And>ls. 0 \<le> ls \<and> ls < 1 \<Longrightarrow>
        calls_to (''s'' @ str_int (1 + ls + 1)) log =
          concat (map (\<lambda>f.
              [[''ovs-ofctl'', ''add-flow'', ''s'' @ str_int (1 + ls + 1),
                ''dl_dst='' @ host_mac ls f @ '' priority=500 actions=output:'' @ str_int (f + 1 + 1)],
               [''ovs-ofctl'', ''add-flow'', ''s'' @ str_int (1 + ls + 1),
                ''priority=300 actions=bundle(symmetric_l4,'' @ str_int (ls + 1)
                  @ '',hrw,ofport,slaves:'' @ slaves_of 1]])
            (py_range 2))"
    by blast
  from leaf [of 0] run show ?thesis
    by (intro exI [of _ net] exI [of _ log])
       (simp add: str_int_small py_range_small host_mac_small slaves_of_small)
qed


section \<open>Exact-match rules on leaf and spine switches\<close>


lemma host_calls_in_log:
  "(ls, f) \<in> set (host_pairs leaf fanout) \<Longrightarrow> set (host_calls spine ls f) \<subseteq> set (unicast_log spine leaf fanout)"
  unfolding unicast_log_def by force

text \<open>
  C5. With \<open>spine\<close> not negative, for every leaf index \<open>ls\<close> and host index \<open>f\<close>:
  \<open>configUnicast\<close> sends the leaf switch \<open>s<spine + ls + 1>\<close> the rule that matches the
  destination MAC address of the host, at priority 500, with output port
  \<open>spine + f + 1\<close>; in the built graph that port of the leaf switch is the one linked
  to the host \<open>h<ls * fanout + f + 1>\<close>; and that host carries this MAC address.
\<close>

theorem leaf_exact_match_rule:
  assumes "0 \<le> spine"
  shows "\<exists>t net log. LeafAndSpine spine leaf fanout = Inr t \<and>
     config_unicast spine leaf fanout = Inr (net, log) \<and>
     (\<forall>ls f. 0 \<le> ls \<and> ls < leaf \<and> 0 \<le> f \<and> f < fanout \<longrightarrow>
        [''ovs-ofctl'', ''add-flow'', ''s'' @ str_int (spine + ls + 1),
         ''dl_dst='' @ host_mac ls f @ '' priority=500 actions=output:'' @ str_int (spine + f + 1)]
          \<in> set log \<and>
        (spine + f + 1, ''h'' @ str_int (ls * fanout + f + 1), 0)
          \<in> set (topo_ports t (''s'' @ str_int (spine + ls + 1))) \<and>
        \<lparr>name = ''h'' @ str_int (ls * fanout + f + 1), dpid = [],
         IP = Some (''10.0.'' @ str_int ls @ ''.'' @ str_int (f + 1) @ ''/16''),
         MAC = Some (host_mac ls f)\<rparr> \<in> set (hosts net))"
proof (intro exI conjI allI impI)
  show "LeafAndSpine spine leaf fanout = Inr (fabric spine leaf fanout)"
    by (rule LeafAndSpine_closed)
  show "config_unicast spine leaf fanout =
     Inr ((Mininet_build (fabric spine leaf fanout))\<lparr>hosts := map (configured_host fanout) (host_pairs leaf fanout)\<rparr>,
          unicast_log spine leaf fanout)"
    by (rule config_unicast_log)
next
  fix ls f :: int
  assume r: "0 \<le> ls \<and> ls < leaf \<and> 0 \<le> f \<and> f < fanout"
  then have p: "(ls, f) \<in> set (host_pairs leaf fanout)" by simp
  have "flow_call (''s'' @ str_int (spine + ls + 1)) (exact_rule (host_mac ls f) (f + 1 + spine))
      \<in> set (host_calls spine ls f)"
    by (simp add: host_calls_def)
  with host_calls_in_log [OF p, of spine]
  have "flow_call (''s'' @ str_int (spine + ls + 1)) (exact_rule (host_mac ls f) (f + 1 + spine))
      \<in> set (unicast_log spine leaf fanout)" by blast
  moreover have "f + 1 + spine = spine + f + 1" by simp
  ultimately show "[''ovs-ofctl'', ''add-flow'', ''s'' @ str_int (spine + ls + 1),
         ''dl_dst='' @ host_mac ls f @ '' priority=500 actions=output:'' @ str_int (spine + f + 1)]
          \<in> set (unicast_log spine leaf fanout)"
    by (simp add: flow_call_def exact_rule_def)
  have "topo_ports (fabric spine leaf fanout) (''s'' @ str_int (spine + ls + 1)) =
     map (\<lambda>s. (s + 1, ''s'' @ str_int (s + 1), ls + 1)) (py_range spine) @
     map (\<lambda>f. (int (nat spine) + f + 1, ''h'' @ str_int (ls * fanout + f + 1), 0)) (py_range fanout)"
    using r by (intro topo_ports_leaf) simp_all
  moreover have "int (nat spine) = spine" using assms by simp
  moreover have "f \<in> set (py_range fanout)" using r by simp
  ultimately show "(spine + f + 1, ''h'' @ str_int (ls * fanout + f + 1), 0)
          \<in> set (topo_ports (fabric spine leaf fanout) (''s'' @ str_int (spine + ls + 1)))"
    by (simp add: image_iff)
  have "configured_host fanout (ls, f) \<in> set (map (configured_host fanout) (host_pairs leaf fanout))"
    unfolding set_map using p by (rule imageI)
  then show "\<lparr>name = ''h'' @ str_int (ls * fanout + f + 1), dpid = [],
         IP = Some (''10.0.'' @ str_int ls @ ''.'' @ str_int (f + 1) @ ''/16''),
         MAC = Some (host_mac ls f)\<rparr>
        \<in> set (hosts ((Mininet_build (fabric spine leaf fanout))\<lparr>hosts := map (configured_host fanout) (host_pairs leaf fanout)\<rparr>))"
    by (simp add: configured_host_def)
qed

theorem leaf_exact_match_rule_witness:
  "\<exists>t net log. LeafAndSpine 2 2 2 = Inr t \<and> config_unicast 2 2 2 = Inr (net, log) \<and>
     [''ovs-ofctl'', ''add-flow'', ''s4'', ''dl_dst=00:04:00:00:01:02 priority=500 actions=output:4'']
       \<in> set log \<and>
     (4, ''h4'', 0) \<in> set (topo_ports t ''s4'') \<and>
     \<lparr>name = ''h4'', dpid = [], IP = Some ''10.0.1.2/16'', MAC = Some ''00:04:00:00:01:02''\<rparr>
       \<in> set (hosts net)"
proof -
  have "(0::int) \<le> 2" by simp
  from leaf_exact_match_rule [OF this, of 2 2] obtain t net log where
    run: "LeafAndSpine 2 2 2 = Inr t" "config_unicast 2 2 2 = Inr (net, log)"
    and rule: "\<And>ls f. 0 \<le> ls \<and> ls < 2 \<and> 0 \<le> f \<and> f < 2 \<Longrightarrow>
        [''ovs-ofctl'', ''add-flow'', ''s'' @ str_int (2 + ls + 1),
         ''dl_dst='' @ host_mac ls f @ '' priority=500 actions=output:'' @ str_int (2 + f + 1)]
          \<in> set log \<and>
        (2 + f + 1, ''h'' @ str_int (ls * 2 + f + 1), 0)
          \<in> set (topo_ports t (''s'' @ str_int (2 + ls + 1))) \<and>
        \<lparr>name = ''h'' @ str_int (ls * 2 + f + 1), dpid = [],
         IP = Some (''10.0.'' @ str_int ls @ ''.'' @ str_int (f + 1) @ ''/16''),
         MAC = Some (host_mac ls f)\<rparr> \<in> set (hosts net)"
    by blast
  from rule [of 1 1] run show ?thesis
    by (intro exI [of _ t] exI [of _ net] exI [of _ log])
       (simp add: str_int_small host_mac_small)
qed

text \<open>
  C6. For every spine switch \<open>s<s + 1>\<close>: the calls \<open>configUnicast\<close> addresses to it are
  exactly one rule per host of the fabric, matching the MAC address of the host at
  priority 500 with output port \<open>ls + 1\<close>, where \<open>ls\<close> is the leaf index of the host;
  and in the built graph the ports of the spine switch are, in order, port \<open>ls + 1\<close>
  linked to the leaf switch of index \<open>ls\<close>. The MAC addresses are those set on the hosts.
\<close>

theorem spine_exact_match_rules:
  "\<exists>t net log. LeafAndSpine spine leaf fanout = Inr t \<and>
     config_unicast spine leaf fanout = Inr (net, log) \<and>
     map (\<lambda>x. (name x, MAC x)) (hosts net) =
       map (\<lambda>(ls, f). (''h'' @ str_int (ls * fanout + f + 1), Some (host_mac ls f)))
         (List.product (py_range leaf) (py_range fanout)) \<and>
     (\<forall>s. 0 \<le> s \<and> s < spine \<longrightarrow>
        calls_to (''s'' @ str_int (s + 1)) log =
          map (\<lambda>(ls, f). [''ovs-ofctl'', ''add-flow'', ''s'' @ str_int (s + 1),
                 ''dl_dst='' @ host_mac ls f @ '' priority=500 actions=output:'' @ str_int (ls + 1)])
            (List.product (py_range leaf) (py_range fanout)) \<and>
        topo_ports t (''s'' @ str_int (s + 1)) =
          map (\<lambda>ls. (ls + 1, ''s'' @ str_int (spine + ls + 1), s + 1)) (py_range leaf))"
proof (intro exI conjI allI impI)
  show "LeafAndSpine spine leaf fanout = Inr (fabric spine leaf fanout)"
    by (rule LeafAndSpine_closed)
  show "config_unicast spine leaf fanout =
     Inr ((Mininet_build (fabric spine leaf fanout))\<lparr>hosts := map (configured_host fanout) (host_pairs leaf fanout)\<rparr>,
          unicast_log spine leaf fanout)"
    by (rule config_unicast_log)
  show "map (\<lambda>x. (name x, MAC x))
      (hosts ((Mininet_build (fabric spine leaf fanout))\<lparr>hosts := map (configured_host fanout) (host_pairs leaf fanout)\<rparr>)) =
       map (\<lambda>(ls, f). (''h'' @ str_int (ls * fanout + f + 1), Some (host_mac ls f)))
         (List.product (py_range leaf) (py_range fanout))"
    by (simp add: host_pairs_def configured_host_def comp_def case_prod_beta)
next
  fix s :: int
  assume s: "0 \<le> s \<and> s < spine"
  then have "calls_to (''s'' @ str_int (s + 1)) (unicast_log spine leaf fanout) =
     map (\<lambda>(ls, f). flow_call (''s'' @ str_int (s + 1)) (exact_rule (host_mac ls f) (ls + 1)))
       (host_pairs leaf fanout)"
    by (intro calls_to_unicast_spine) simp_all
  then show "calls_to (''s'' @ str_int (s + 1)) (unicast_log spine leaf fanout) =
          map (\<lambda>(ls, f). [''ovs-ofctl'', ''add-flow'', ''s'' @ str_int (s + 1),
                 ''dl_dst='' @ host_mac ls f @ '' priority=500 actions=output:'' @ str_int (ls + 1)])
            (List.product (py_range leaf) (py_range fanout))"
    by (simp add: host_pairs_def flow_call_def exact_rule_def)
  from s show "topo_ports (fabric spine leaf fanout) (''s'' @ str_int (s + 1)) =
          map (\<lambda>ls. (ls + 1, ''s'' @ str_int (spine + ls + 1), s + 1)) (py_range leaf)"
    by (intro topo_ports_spine) simp_all
qed

theorem spine_exact_match_rules_witness:
  "\<exists>t net log. LeafAndSpine 2 2 1 = Inr t \<and> config_unicast 2 2 1 = Inr (net, log) \<and>
     map (\<lambda>x. (name x, MAC x)) (hosts net) =
       [(''h1'', Some ''00:04:00:00:00:01''), (''h2'', Some ''00:04:00:00:01:01'')] \<and>
     calls_to ''s2'' log =
       [[''ovs-ofctl'', ''add-flow'', ''s2'', ''dl_dst=00:04:00:00:00:01 priority=500 actions=output:1''],
        [''ovs-ofctl'', ''add-flow'', ''s2'', ''dl_dst=00:04:00:00:01:01 priority=500 actions=output:2'']] \<and>
     topo_ports t ''s2'' = [(1, ''s3'', 2), (2, ''s4'', 2)]"
proof -
  from spine_exact_match_rules [of 2 2 1] obtain t net log where
    run: "LeafAndSpine 2 2 1 = Inr t" "config_unicast 2 2 1 = Inr (net, log)"
      "map (\<lambda>x. (name x, MAC x)) (hosts net) =
       map (\<lambda>(ls, f). (''h'' @ str_int (ls * 1 + f + 1), Some (host_mac ls f)))
         (List.product (py_range 2) (py_range 1))"
    and rules: "\<And>s. 0 \<le> s \<and> s < 2 \<Longrightarrow>
        calls_to (''s'' @ str_int (s + 1)) log =
          map (\<lambda>(ls, f). [''ovs-ofctl'', ''add-flow'', ''s'' @ str_int (s + 1),
                 ''dl_dst='' @ host_mac ls f @ '' priority=500 actions=output:'' @ str_int (ls + 1)])
            (List.product (py_range 2) (py_range 1)) \<and>
        topo_ports t (''s'' @ str_int (s + 1)) =
          map (\<lambda>ls. (ls + 1, ''s'' @ str_int (2 + ls + 1), s + 1)) (py_range 2)"
    by blast
  from rules [of 1] run show ?thesis
    by (intro exI [of _ t] exI [of _ net] exI [of _ log])
       (simp add: str_int_small py_range_small host_mac_small)
qed


section \<open>What the unicast configuration changes\<close>


text \<open>
  C10 as stated fails: \<open>configUnicast\<close> writes a field of a host. In the fabric with one
  spine, one leaf and one host, the host has no MAC address set after construction
  and has \<open>00:04:00:00:00:01\<close> after the run.
\<close>

theorem fabric_unchanged_counterexample:
  "(case LeafAndSpine 1 1 1 of Inl e \<Rightarrow> None | Inr t \<Rightarrow> Some (map MAC (hosts (Mininet_build t))))
     = Some [None] \<and>
   (case config_unicast 1 1 1 of Inl e \<Rightarrow> None | Inr (net, log) \<Rightarrow> Some (map MAC (hosts net)))
     = Some [Some ''00:04:00:00:00:01'']"
  by (simp add: LeafAndSpine_closed config_unicast_log hosts_build_fabric host_pairs_small
      fabric_host_def configured_host_def host_mac_small)

text \<open>
  C10, as amended. \<open>configUnicast\<close> changes the MAC address of the hosts and nothing
  else: on the network made from the built graph it returns a network with the same
  switches and the same links, and with the same hosts but for their MAC address,
  which is set to the address of line 91 on every host. (\<open>configMulticast\<close> is not
  given the network, and \<open>dumpTopology\<close> returns only the exported structure: the
  \<open>edge\<close> tag is written there, not on a switch.)
\<close>

theorem configUnicast_frame:
  "\<exists>t net log. LeafAndSpine spine leaf fanout = Inr t \<and>
     config_unicast spine leaf fanout = Inr (net, log) \<and>
     switches net = switches (Mininet_build t) \<and>
     links net = links (Mininet_build t) \<and>
     map (\<lambda>x. x\<lparr>MAC := None\<rparr>) (hosts net) = hosts (Mininet_build t) \<and>
     map MAC (hosts net) =
       map (\<lambda>(ls, f). Some (host_mac ls f)) (List.product (py_range leaf) (py_range fanout))"
proof -
  let ?built = "Mininet_build (fabric spine leaf fanout)"
  let ?net = "?built\<lparr>hosts := map (configured_host fanout) (host_pairs leaf fanout)\<rparr>"
  have 1: "LeafAndSpine spine leaf fanout = Inr (fabric spine leaf fanout)"
    by (rule LeafAndSpine_closed)
  have 2: "config_unicast spine leaf fanout = Inr (?net, unicast_log spine leaf fanout)"
    by (rule config_unicast_log)
  have 3: "switches ?net = switches ?built" by simp
  have 4: "links ?net = links ?built" by simp
  have strip: "(\<lambda>x. x\<lparr>MAC := None\<rparr>) \<circ> configured_host fanout = fabric_host fanout"
    by (rule ext) (simp add: configured_host_def fabric_host_def case_prod_beta)
  have "hosts ?net = map (configured_host fanout) (host_pairs leaf fanout)" by simp
  then have 5: "map (\<lambda>x. x\<lparr>MAC := None\<rparr>) (hosts ?net) = hosts ?built"
    unfolding hosts_build_fabric by (simp only: map_map strip)
  have 6: "map MAC (hosts ?net) =
       map (\<lambda>(ls, f). Some (host_mac ls f)) (List.product (py_range leaf) (py_range fanout))"
    by (simp add: host_pairs_def configured_host_def comp_def case_prod_beta)
  from 1 2 3 4 5 6 show ?thesis by blast
qed


section \<open>Properties of the topology export\<close>


lemma foldM_invariant:
  assumes "foldM f xs s = Inr s'" "P s"
    and "\<And>x s s'. x \<in> set xs \<Longrightarrow> P s \<Longrightarrow> f x s = Inr s' \<Longrightarrow> P s'"
  shows "P s'"
  using assms
proof (induction xs arbitrary: s)
  case Nil
  then show ?case by simp
next
  case (Cons x xs)
  from Cons.prems(1) obtain s1 where s1: "f x s = Inr s1" "foldM f xs s1 = Inr s'"
    by (auto split: sum.splits)
  have "P s1" using Cons.prems(3) [of x s s1] Cons.prems(2) s1(1) by simp
  with s1(2) show ?case
    by (rule Cons.IH) (use Cons.prems(3) in auto)
qed

lemma foldM_fails:
  assumes "x \<in> set xs" "\<And>s. \<exists>e. f x s = Inl e"
  shows "\<exists>e. foldM f xs s = Inl e"
  using assms(1)
proof (induction xs arbitrary: s)
  case Nil
  then show ?case by simp
next
  case (Cons y ys)
  show ?case
  proof (cases "f y s")
    case (Inl e)
    then show ?thesis by simp
  next
    case (Inr s1)
    show ?thesis
    proof (cases "y = x")
      case True
      with assms(2) [of s] Inr show ?thesis by simp
    next
      case False
      with Cons.prems have "x \<in> set ys" by simp
      from Cons.IH [OF this, of s1] Inr show ?thesis by simp
    qed
  qed
qed

lemma tags_of_dict_set: "tags_of (dict_set k v d) = (tags_of d)(k := Some (tag v))"
  by (simp add: tags_of_def [abs_def] map_of_dict_set fun_eq_iff)

lemma tags_of_dump_nodes_fold:
  "tags_of (fold (\<lambda>s. dict_set (name s)
             \<lparr>node_name = name s, node_dpid = dpid s, ports = [], agent = ag, tag = None\<rparr>) xs d) k
     = (if k \<in> name ` set xs then Some None else tags_of d k)"
  by (induction xs arbitrary: d) (auto simp: tags_of_dict_set)

lemma tags_of_dump_nodes:
  "tags_of (dump_nodes net ag) k = (if k \<in> name ` set (switches net) then Some None else None)"
  unfolding dump_nodes_def tags_of_dump_nodes_fold by (simp add: tags_of_def)

lemma dump_ports_tags:
  assumes "dump_ports sysfs nds = Inr nds'"
  shows "tags_of nds' = tags_of nds"
proof (rule foldM_invariant [where P = "\<lambda>x. tags_of x = tags_of nds", OF assms [unfolded dump_ports_def]])
  show "tags_of nds = tags_of nds" ..
next
  fix x :: "string \<times> string" and s s' :: "(string \<times> node_rec) list"
  assume inv: "tags_of s = tags_of nds"
    and step: "(case x of (child, content) \<Rightarrow> \<lambda>nds.
         case match_switch_intf child of
           None \<Rightarrow> Inr nds
         | Some sw \<Rightarrow>
             let idx = takeWhile (\<lambda>c. c \<noteq> CHR 0x0A) content
             in case map_of nds sw of
                  None \<Rightarrow> Inl (KeyError sw)
                | Some nd \<Rightarrow>
                    Inr (dict_set sw
                          (nd\<lparr>ports := dict_set child \<lparr>port_name = child, ifindex = idx\<rparr> (ports nd)\<rparr>)
                          nds)) s = Inr s'"
  obtain child content where x: "x = (child, content)" by (cases x)
  show "tags_of s' = tags_of nds"
  proof (cases "match_switch_intf child")
    case None
    with step inv show ?thesis by (simp add: x)
  next
    case (Some sw)
    with step obtain nd where nd: "map_of s sw = Some nd"
      and s': "s' = dict_set sw (nd\<lparr>ports := dict_set child
          \<lparr>port_name = child, ifindex = takeWhile (\<lambda>c. c \<noteq> CHR 0x0A) content\<rparr> (ports nd)\<rparr>) s"
      by (auto simp: x Let_def split: option.splits)
    have "tags_of s' = (tags_of s)(sw := Some (tag nd))"
      unfolding s' tags_of_dict_set by simp
    also have "\<dots> = tags_of s" using nd by (auto simp: tags_of_def fun_eq_iff)
    finally show ?thesis using inv by simp
  qed
qed

lemma dump_tags_flat:
  "dump_tags net = foldM (tag_step net) (List.product (hosts net) (switches net))"
proof
  fix nds
  have "foldM (\<lambda>h. foldM (\<lambda>s nds. tag_step net (h, s) nds) (switches net)) (hosts net) nds
      = foldM (\<lambda>(h, s). (\<lambda>nds. tag_step net (h, s) nds)) (List.product (hosts net) (switches net)) nds"
    by (rule foldM_product)
  then show "dump_tags net nds = foldM (tag_step net) (List.product (hosts net) (switches net)) nds"
    by (simp add: dump_tags_def tag_step_def)
qed

lemma tag_steps:
  "foldM (tag_step net) ps nds = Inr nds' \<Longrightarrow>
     tags_of nds' k = (if k \<in> tagged net ps then Some (Some ''edge'') else tags_of nds k)"
proof (induction ps arbitrary: nds)
  case Nil
  then show ?case by (simp add: tagged_def)
next
  case (Cons p ps)
  obtain h s where p: "p = (h, s)" by (cases p)
  from Cons.prems obtain nds1 where step: "tag_step net (h, s) nds = Inr nds1"
    and rest: "foldM (tag_step net) ps nds1 = Inr nds'"
    by (auto simp: p split: sum.splits)
  have IH: "tags_of nds' k = (if k \<in> tagged net ps then Some (Some ''edge'') else tags_of nds1 k)"
    using rest by (rule Cons.IH)
  have split: "tagged net (p # ps) =
      (if connectionsTo net (name h) (name s) \<noteq> [] then insert (name s) (tagged net ps) else tagged net ps)"
    by (auto simp: tagged_def p)
  show ?case
  proof (cases "connectionsTo net (name h) (name s) \<noteq> []")
    case True
    with step obtain nd where "nds1 = dict_set (name s) (nd\<lparr>tag := Some ''edge''\<rparr>) nds"
      by (auto simp: tag_step_def split: option.splits)
    then have "tags_of nds1 = (tags_of nds)(name s := Some (Some ''edge''))"
      by (simp add: tags_of_dict_set)
    with IH True show ?thesis unfolding split by simp
  next
    case False
    with step have "nds1 = nds" by (simp add: tag_step_def)
    with IH False show ?thesis unfolding split by simp
  qed
qed

lemma tagged_all:
  "s \<in> set (switches net) \<Longrightarrow>
     name s \<in> tagged net (List.product (hosts net) (switches net)) \<longleftrightarrow>
       (\<exists>h \<in> set (hosts net). connectionsTo net (name h) (name s) \<noteq> [])"
  unfolding tagged_def by auto



text \<open>
  C8. In the structure \<open>dumpTopology\<close> writes, the record of every switch of the
  network carries the tag \<open>edge\<close> if some host of the network has a connection to that
  switch, and carries no tag otherwise.
\<close>

theorem edge_tag_iff_host_attached:
  assumes "dumpTopology net ag sysfs = Inr td" "s \<in> set (switches net)"
  shows "\<exists>nd. map_of (nodes td) (name s) = Some nd \<and>
     tag nd = (if \<exists>h \<in> set (hosts net). connectionsTo net (name h) (name s) \<noteq> []
               then Some ''edge'' else None)"
proof -
  from assms(1) obtain nds lks where ports: "dump_ports sysfs (dump_nodes net ag) = Inr nds"
    and tags: "dump_tags net nds = Inr (nodes td)"
    by (auto simp: dumpTopology_def split: sum.splits)
  let ?ps = "List.product (hosts net) (switches net)"
  have start: "tags_of nds (name s) = Some None"
    using assms(2) by (simp add: dump_ports_tags [OF ports] tags_of_dump_nodes)
  from tags have "foldM (tag_step net) ?ps nds = Inr (nodes td)"
    by (simp add: dump_tags_flat)
  then have "tags_of (nodes td) (name s) =
      (if name s \<in> tagged net ?ps then Some (Some ''edge'') else tags_of nds (name s))"
    by (rule tag_steps)
  then have "tags_of (nodes td) (name s) =
      Some (if \<exists>h \<in> set (hosts net). connectionsTo net (name h) (name s) \<noteq> []
            then Some ''edge'' else None)"
    unfolding start tagged_all [OF assms(2)] by simp
  then show ?thesis
    by (auto simp: tags_of_def)
qed

lemma demo_dump:
  "dumpTopology demo_net ''127.0.0.1'' demo_sysfs =
     Inr \<lparr>nodes =
            [(''s1'', \<lparr>node_name = ''s1'', node_dpid = ''0000000000000001'',
                      ports = [(''s1-eth1'', \<lparr>port_name = ''s1-eth1'', ifindex = ''5''\<rparr>)],
                      agent = ''127.0.0.1'', tag = None\<rparr>),
             (''s2'', \<lparr>node_name = ''s2'', node_dpid = ''0000000000000002'',
                      ports = [(''s2-eth1'', \<lparr>port_name = ''s2-eth1'', ifindex = ''6''\<rparr>),
                               (''s2-eth2'', \<lparr>port_name = ''s2-eth2'', ifindex = ''7''\<rparr>)],
                      agent = ''127.0.0.1'', tag = Some ''edge''\<rparr>)],
          tlinks =
            [(''s1-s2'', \<lparr>l_node1 = ''s1'', l_port1 = ''s1-eth1'', l_ifindex1 = ''5'',
                          l_node2 = ''s2'', l_port2 = ''s2-eth1'', l_ifindex2 = ''6''\<rparr>)]\<rparr>"
  by code_simp

theorem edge_tag_iff_host_attached_witness:
  "\<exists>td. dumpTopology demo_net ''127.0.0.1'' demo_sysfs = Inr td \<and>
     (\<exists>nd. map_of (nodes td) ''s2'' = Some nd \<and> tag nd = Some ''edge'') \<and>
     (\<exists>nd. map_of (nodes td) ''s1'' = Some nd \<and> tag nd = None)"
proof -
  let ?s1 = "\<lparr>name = ''s1'', dpid = ''0000000000000001'', IP = None, MAC = None\<rparr>"
  let ?s2 = "\<lparr>name = ''s2'', dpid = ''0000000000000002'', IP = None, MAC = None\<rparr>"
  have s1: "?s1 \<in> set (switches demo_net)" and s2: "?s2 \<in> set (switches demo_net)"
    by (simp_all add: demo_net_def)
  have c1: "\<not> (\<exists>h \<in> set (hosts demo_net). connectionsTo demo_net (name h) (name ?s1) \<noteq> [])"
    by (simp add: demo_net_def connectionsTo_def)
  have c2: "\<exists>h \<in> set (hosts demo_net). connectionsTo demo_net (name h) (name ?s2) \<noteq> []"
    by (simp add: demo_net_def connectionsTo_def)
  from edge_tag_iff_host_attached [OF demo_dump s2] c2
  obtain nd2 where "map_of (nodes (projr (dumpTopology demo_net ''127.0.0.1'' demo_sysfs))) ''s2'' = Some nd2"
    "tag nd2 = Some ''edge''"
    unfolding demo_dump by auto
  moreover from edge_tag_iff_host_attached [OF demo_dump s1] c1
  obtain nd1 where "map_of (nodes (projr (dumpTopology demo_net ''127.0.0.1'' demo_sysfs))) ''s1'' = Some nd1"
    "tag nd1 = None"
    unfolding demo_dump by auto
  ultimately show ?thesis using demo_dump by (metis sum.sel(2))
qed



lemma set_dict_set: "set (dict_set k v d) \<subseteq> insert (k, v) (set d)"
  by (induction d) (auto split: if_splits)

lemma ports_withinD:
  "ports_within X nds \<Longrightarrow> (k, nd) \<in> set nds \<Longrightarrow> a \<in> fst ` set (ports nd) \<Longrightarrow> a \<in> X"
  unfolding ports_within_def by blast

lemma ports_withinI:
  "(\<And>k nd a. (k, nd) \<in> set nds \<Longrightarrow> a \<in> fst ` set (ports nd) \<Longrightarrow> a \<in> X) \<Longrightarrow> ports_within X nds"
  unfolding ports_within_def by blast

lemma ports_within_dict_set:
  assumes "ports_within X d" "fst ` set (ports v) \<subseteq> X"
  shows "ports_within X (dict_set k v d)"
proof (rule ports_withinI)
  fix k' nd a
  assume "(k', nd) \<in> set (dict_set k v d)" and a: "a \<in> fst ` set (ports nd)"
  with set_dict_set [of k v d] have "(k', nd) = (k, v) \<or> (k', nd) \<in> set d" by blast
  then show "a \<in> X"
  proof
    assume "(k', nd) = (k, v)"
    with a assms(2) show ?thesis by auto
  next
    assume "(k', nd) \<in> set d"
    with assms(1) show ?thesis using a by (rule ports_withinD)
  qed
qed

lemma ports_within_dump_nodes: "ports_within X (dump_nodes net ag)"
proof -
  have "ports_within X (fold (\<lambda>s. dict_set (name s)
             \<lparr>node_name = name s, node_dpid = dpid s, ports = [], agent = ag, tag = None\<rparr>) xs d)"
    if "ports_within X d" for xs d
    using that
  proof (induction xs arbitrary: d)
    case Nil
    then show ?case by simp
  next
    case (Cons x xs)
    have "ports_within X (dict_set (name x)
             \<lparr>node_name = name x, node_dpid = dpid x, ports = [], agent = ag, tag = None\<rparr> d)"
      using Cons.prems by (rule ports_within_dict_set) simp
    then show ?case by (simp add: Cons.IH)
  qed
  moreover have "ports_within X []" by (rule ports_withinI) simp
  ultimately show ?thesis unfolding dump_nodes_def by blast
qed

lemma dump_ports_within:
  assumes "dump_ports sysfs nds = Inr nds'" "ports_within (fst ` set sysfs) nds"
  shows "ports_within (fst ` set sysfs) nds'"
proof (rule foldM_invariant [where P = "ports_within (fst ` set sysfs)", OF assms [unfolded dump_ports_def]])
  fix x :: "string \<times> string" and s s' :: "(string \<times> node_rec) list"
  assume mem: "x \<in> set sysfs" and inv: "ports_within (fst ` set sysfs) s"
    and step: "(case x of (child, content) \<Rightarrow> \<lambda>nds.
         case match_switch_intf child of
           None \<Rightarrow> Inr nds
         | Some sw \<Rightarrow>
             let idx = takeWhile (\<lambda>c. c \<noteq> CHR 0x0A) content
             in case map_of nds sw of
                  None \<Rightarrow> Inl (KeyError sw)
                | Some nd \<Rightarrow>
                    Inr (dict_set sw
                          (nd\<lparr>ports := dict_set child \<lparr>port_name = child, ifindex = idx\<rparr> (ports nd)\<rparr>)
                          nds)) s = Inr s'"
  obtain child content where x: "x = (child, content)" by (cases x)
  show "ports_within (fst ` set sysfs) s'"
  proof (cases "match_switch_intf child")
    case None
    with step inv show ?thesis by (simp add: x)
  next
    case (Some sw)
    with step obtain nd where nd: "map_of s sw = Some nd"
      and s': "s' = dict_set sw (nd\<lparr>ports := dict_set child
          \<lparr>port_name = child, ifindex = takeWhile (\<lambda>c. c \<noteq> CHR 0x0A) content\<rparr> (ports nd)\<rparr>) s"
      by (auto simp: x Let_def split: option.splits)
    from nd have "(sw, nd) \<in> set s" by (rule map_of_SomeD)
    with inv have "fst ` set (ports nd) \<subseteq> fst ` set sysfs"
      using ports_withinD by blast
    moreover have "child \<in> fst ` set sysfs" using mem x by force
    ultimately have "fst ` set (dict_set child
          \<lparr>port_name = child, ifindex = takeWhile (\<lambda>c. c \<noteq> CHR 0x0A) content\<rparr> (ports nd)) \<subseteq> fst ` set sysfs"
      by (simp add: fst_set_dict_set)
    then have "fst ` set (ports (nd\<lparr>ports := dict_set child
          \<lparr>port_name = child, ifindex = takeWhile (\<lambda>c. c \<noteq> CHR 0x0A) content\<rparr> (ports nd)\<rparr>)) \<subseteq> fst ` set sysfs"
      by simp
    with inv show ?thesis
      unfolding s' by (rule ports_within_dict_set)
  qed
qed

lemma ifindex_of_missing:
  assumes "ports_within X nds" "intf \<notin> X"
  shows "\<exists>e. ifindex_of nds sw intf = Inl e"
proof (cases "map_of nds sw")
  case None
  then show ?thesis by (simp add: ifindex_of_def)
next
  case (Some nd)
  then have "(sw, nd) \<in> set nds" by (rule map_of_SomeD)
  with assms have "intf \<notin> fst ` set (ports nd)" using ports_withinD by blast
  then have "map_of (ports nd) intf = None" by (simp add: map_of_eq_None_iff)
  with Some show ?thesis by (simp add: ifindex_of_def)
qed

lemma dump_link_missing:
  assumes "ports_within X nds" "a \<notin> X \<or> b \<notin> X"
  shows "\<exists>e. dump_link nds s1 s2 (a, b) lks = Inl e"
  using assms(2)
proof
  assume "a \<notin> X"
  from ifindex_of_missing [OF assms(1) this, of "name s1"]
  show ?thesis by (auto simp: dump_link_def)
next
  assume "b \<notin> X"
  from ifindex_of_missing [OF assms(1) this, of "name s2"]
  show ?thesis by (cases "ifindex_of nds (name s1) a") (auto simp: dump_link_def)
qed

lemma dump_links_missing:
  assumes within: "ports_within X nds"
    and ij: "i < j" "j < length (switches net)"
    and conn: "(a, b) \<in> set (connectionsTo net (name (switches net ! i)) (name (switches net ! j)))"
    and miss: "a \<notin> X \<or> b \<notin> X"
  shows "\<exists>e. dump_links net nds = Inl e"
proof -
  let ?s1 = "switches net ! i" and ?s2 = "switches net ! j"
  have inner: "\<exists>e. foldM (dump_link nds ?s1 ?s2) (connectionsTo net (name ?s1) (name ?s2)) lks = Inl e" for lks
    using conn by (rule foldM_fails) (rule dump_link_missing [OF within miss])
  have j_mem: "(j, ?s2) \<in> set (enumerate 0 (switches net))"
    using ij by (simp add: in_set_enumerate_eq)
  have i_mem: "(i, ?s1) \<in> set (enumerate 0 (switches net))"
    using ij by (simp add: in_set_enumerate_eq)
  have middle: "\<exists>e. foldM (\<lambda>(j, s2) lks.
             if j > i
             then foldM (dump_link nds ?s1 s2) (connectionsTo net (name ?s1) (name s2)) lks
             else Inr lks)
           (enumerate 0 (switches net)) lks = Inl e" for lks
    using j_mem by (rule foldM_fails) (use ij inner in simp)
  have "\<exists>e. foldM (\<lambda>(i, s1).
         foldM (\<lambda>(j, s2) lks.
             if j > i
             then foldM (dump_link nds s1 s2) (connectionsTo net (name s1) (name s2)) lks
             else Inr lks)
           (enumerate 0 (switches net)))
       (enumerate 0 (switches net)) [] = Inl e"
    using i_mem by (rule foldM_fails) (use middle in simp)
  then show ?thesis unfolding dump_links_def .
qed

text \<open>
  C9 as stated fails, in two ways. An interface of a switch whose index was not
  discovered is only looked up when it is an end of a connection between two
  switches: with the host-facing interface \<open>s2-eth2\<close> missing from the listing the
  export succeeds, and the record of \<open>s2\<close> just lacks that port. And the failure that
  the script has is the \<open>KeyError\<close> of a dictionary subscript, whose key is that of
  the first lookup that fails: with an entry \<open>s12-eth1\<close> of no switch of the network in
  the listing and \<open>s2-eth1\<close> missing, the error is \<open>KeyError\<close> of \<open>s12\<close> (line 141).
\<close>

theorem missing_ifindex_counterexample:
  "dumpTopology demo_net ''127.0.0.1''
     [(''lo'', [CHR ''1'', CHR 0x0A]), (''s1-eth1'', [CHR ''5'', CHR 0x0A]),
      (''s2-eth1'', [CHR ''6'', CHR 0x0A])] =
     Inr \<lparr>nodes =
            [(''s1'', \<lparr>node_name = ''s1'', node_dpid = ''0000000000000001'',
                      ports = [(''s1-eth1'', \<lparr>port_name = ''s1-eth1'', ifindex = ''5''\<rparr>)],
                      agent = ''127.0.0.1'', tag = None\<rparr>),
             (''s2'', \<lparr>node_name = ''s2'', node_dpid = ''0000000000000002'',
                      ports = [(''s2-eth1'', \<lparr>port_name = ''s2-eth1'', ifindex = ''6''\<rparr>)],
                      agent = ''127.0.0.1'', tag = Some ''edge''\<rparr>)],
          tlinks =
            [(''s1-s2'', \<lparr>l_node1 = ''s1'', l_port1 = ''s1-eth1'', l_ifindex1 = ''5'',
                          l_node2 = ''s2'', l_port2 = ''s2-eth1'', l_ifindex2 = ''6''\<rparr>)]\<rparr> \<and>
   dumpTopology demo_net ''127.0.0.1''
     [(''s1-eth1'', [CHR ''5'', CHR 0x0A]), (''s12-eth1'', [CHR ''9'', CHR 0x0A]),
      (''s2-eth2'', [CHR ''7'', CHR 0x0A])] =
     Inl (KeyError ''s12'')"
  by code_simp

text \<open>
  C9, as amended. When two switches of the network are connected and the interface at
  either end of the connection is not among the entries of the directory listing, so
  that no interface index was recorded for it, \<open>dumpTopology\<close> fails with a
  \<open>KeyError\<close> and writes nothing; the link is not skipped.
\<close>

theorem missing_ifindex_fails:
  assumes "i < j" "j < length (switches net)"
    and "(a, b) \<in> set (connectionsTo net (name (switches net ! i)) (name (switches net ! j)))"
    and "a \<notin> fst ` set sysfs \<or> b \<notin> fst ` set sysfs"
  shows "\<exists>k. dumpTopology net ag sysfs = Inl (KeyError k)"
proof -
  have "\<exists>e. dumpTopology net ag sysfs = Inl e"
  proof (cases "dump_ports sysfs (dump_nodes net ag)")
    case (Inl e)
    then show ?thesis by (simp add: dumpTopology_def)
  next
    case (Inr nds)
    then have "ports_within (fst ` set sysfs) nds"
      by (rule dump_ports_within) (rule ports_within_dump_nodes)
    from dump_links_missing [OF this assms] obtain e where "dump_links net nds = Inl e" ..
    with Inr show ?thesis by (simp add: dumpTopology_def)
  qed
  then obtain e where e: "dumpTopology net ag sysfs = Inl e" ..
  obtain k where "e = KeyError k" by (cases e)
  with e show ?thesis by blast
qed

theorem missing_ifindex_fails_witness:
  "\<exists>k. dumpTopology demo_net ''127.0.0.1'' [(''lo'', ''1''), (''s1-eth1'', ''5''), (''s2-eth2'', ''7'')]
        = Inl (KeyError k)"
proof -
  have 1: "(0::nat) < 1" "1 < length (switches demo_net)"
    by (simp_all add: demo_net_def)
  have 2: "(''s1-eth1'', ''s2-eth1'') \<in>
      set (connectionsTo demo_net (name (switches demo_net ! 0)) (name (switches demo_net ! 1)))"
    by (simp add: demo_net_def connectionsTo_def)
  have 3: "''s1-eth1'' \<notin> fst ` set [(''lo'', ''1''), (''s1-eth1'', ''5''), (''s2-eth2'', ''7'')]
      \<or> ''s2-eth1'' \<notin> fst ` set [(''lo'', ''1''), (''s1-eth1'', ''5''), (''s2-eth2'', ''7'')]"
    by simp
  from missing_ifindex_fails [OF 1 2 3] show ?thesis .
qed


end
